theory Spec2Isabelle
  imports Complex_Main "HOL-Library.Sublist"
begin

section \<open>Arrays, slices and the numpy operations the cropper uses\<close>

text \<open>
  The exceptions the modelled code can raise: the \<open>assert\<close> of \<open>create_dataset\<close>,
  \<open>x.min()\<close> of an empty array, \<open>[0][0]\<close> and \<open>np.delete\<close> out of range, and the
  division by \<open>slice_size_mm\<close>.
\<close>

datatype error = AssertionError | ValueError | IndexError | ZeroDivisionError

type_synonym idx = "nat \<times> nat \<times> nat"

text \<open>
  A dense 3D array, axis order (depth, height, width): its shape and its element at each
  index. Only the elements at indices inside the shape belong to the array.
\<close>

record 'a ndarray =
  shape :: "nat \<times> nat \<times> nat"
  data :: "idx \<Rightarrow> 'a"

fun in_bounds :: "nat \<times> nat \<times> nat \<Rightarrow> idx \<Rightarrow> bool" where
  "in_bounds (d, h, w) (z, y, x) = (z < d \<and> y < h \<and> x < w)"

text \<open>All indices of a shape in C (row-major) order, the order of \<open>flatten\<close> and \<open>np.where\<close>.\<close>

fun indices :: "nat \<times> nat \<times> nat \<Rightarrow> idx list" where
  "indices (d, h, w) = List.product [0..<d] (List.product [0..<h] [0..<w])"

fun size_of :: "nat \<times> nat \<times> nat \<Rightarrow> nat" where
  "size_of (d, h, w) = d * h * w"

definition flatten :: "'a ndarray \<Rightarrow> 'a list" where
  "flatten a = map (data a) (indices (shape a))"

text \<open>\<open>a == c\<close> for a scalar \<open>c\<close>: the elementwise comparison.\<close>

definition eq_scalar :: "'a ndarray \<Rightarrow> 'a \<Rightarrow> bool ndarray" where
  "eq_scalar a c = \<lparr>shape = shape a, data = (\<lambda>v. data a v = c)\<rparr>"

text \<open>
  A \<open>slice(start, stop)\<close> with non-negative bounds. numpy clips both bounds to the length
  \<open>n\<close> of the axis, and the slice is empty when the clipped stop is not above the clipped
  start.
\<close>

type_synonym slice = "nat \<times> nat"
type_synonym ranges = "slice \<times> slice \<times> slice"

definition slice_start :: "nat \<Rightarrow> slice \<Rightarrow> nat" where
  "slice_start n s = min (fst s) n"

definition slice_len :: "nat \<Rightarrow> slice \<Rightarrow> nat" where
  "slice_len n s = min (snd s) n - min (fst s) n"

text \<open>\<open>a[ranges]\<close>: basic slicing with one slice per axis.\<close>

fun getitem_shape :: "nat \<times> nat \<times> nat \<Rightarrow> ranges \<Rightarrow> nat \<times> nat \<times> nat" where
  "getitem_shape (d, h, w) (sz, sy, sx) = (slice_len d sz, slice_len h sy, slice_len w sx)"

fun getitem_origin :: "nat \<times> nat \<times> nat \<Rightarrow> ranges \<Rightarrow> idx" where
  "getitem_origin (d, h, w) (sz, sy, sx) = (slice_start d sz, slice_start h sy, slice_start w sx)"

fun offset :: "idx \<Rightarrow> idx \<Rightarrow> idx" where
  "offset (oz, oy, ox) (z, y, x) = (oz + z, oy + y, ox + x)"

definition getitem :: "'a ndarray \<Rightarrow> ranges \<Rightarrow> 'a ndarray" where
  "getitem a r =
     \<lparr>shape = getitem_shape (shape a) r,
      data = (\<lambda>v. data a (offset (getitem_origin (shape a) r) v))\<rparr>"

text \<open>\<open>np.where(image)\<close>: the indices of the true elements, in C order.\<close>

definition np_where :: "bool ndarray \<Rightarrow> idx list" where
  "np_where img = filter (data img) (indices (shape img))"

fun axis0 :: "idx \<Rightarrow> nat" where "axis0 (z, y, x) = z"
fun axis1 :: "idx \<Rightarrow> nat" where "axis1 (z, y, x) = y"
fun axis2 :: "idx \<Rightarrow> nat" where "axis2 (z, y, x) = x"

text \<open>\<open>np.unique(xs, return_counts=True)\<close>: the sorted distinct values and their counts.\<close>

definition np_unique :: "nat list \<Rightarrow> nat list \<times> nat list" where
  "np_unique xs = (let values = sort (remdups xs) in (values, map (count_list xs) values))"

text \<open>\<open>np.where(values == a)[0][0]\<close>: the first position of \<open>a\<close>, IndexError when absent.\<close>

definition first_index :: "nat list \<Rightarrow> nat \<Rightarrow> error + nat" where
  "first_index values a =
     (if a \<in> set values then Inr (length (takeWhile (\<lambda>x. x \<noteq> a) values)) else Inl IndexError)"

text \<open>\<open>np.delete(xs, is)\<close>: the elements at the positions not listed, IndexError when a
  listed position is out of range.\<close>

definition np_delete :: "nat list \<Rightarrow> nat list \<Rightarrow> error + nat list" where
  "np_delete xs is =
     (if \<forall>i \<in> set is. i < length xs
      then Inr (map fst (filter (\<lambda>p. snd p \<notin> set is) (zip xs [0..<length xs])))
      else Inl IndexError)"

text \<open>\<open>str(n)\<close> of a non-negative integer.\<close>

definition digit_char :: "nat \<Rightarrow> char" where
  "digit_char n = ''0123456789'' ! n"

fun str_nat :: "nat \<Rightarrow> string" where
  "str_nat n = (if n < 10 then [digit_char n] else str_nat (n div 10) @ [digit_char (n mod 10)])"

declare str_nat.simps [simp del]

section \<open>The external collaborators: binary dilation and connected components\<close>

text \<open>
  \<open>scipy.ndimage.binary_dilation(input, iterations=n)\<close> with its default structuring element
  (the voxel and its six face neighbours) and border value 0. One round sets a voxel when it
  or a face neighbour is set; \<open>n \<ge> 1\<close> runs \<open>n\<close> rounds; \<open>n < 1\<close> repeats until nothing
  changes. The function returns a new array and leaves its input as it is.
\<close>

fun neighbours6 :: "idx \<Rightarrow> idx list" where
  "neighbours6 (z, y, x) =
     (if 0 < z then [(z - 1, y, x)] else []) @ [(z + 1, y, x)] @
     (if 0 < y then [(z, y - 1, x)] else []) @ [(z, y + 1, x)] @
     (if 0 < x then [(z, y, x - 1)] else []) @ [(z, y, x + 1)]"

definition dilate1 :: "bool ndarray \<Rightarrow> bool ndarray" where
  "dilate1 a =
     \<lparr>shape = shape a,
      data = (\<lambda>v. in_bounds (shape a) v \<and>
                 (data a v \<or> (\<exists>u \<in> set (neighbours6 v). in_bounds (shape a) u \<and> data a u)))\<rparr>"

definition background_count :: "bool ndarray \<Rightarrow> nat" where
  "background_count a = length (filter (\<lambda>v. \<not> data a v) (indices (shape a)))"

definition same_elements :: "bool ndarray \<Rightarrow> bool ndarray \<Rightarrow> bool" where
  "same_elements a b = (\<forall>v \<in> set (indices (shape a)). data a v = data b v)"

lemma filter_length_less:
  "\<forall>x \<in> set xs. P x \<longrightarrow> Q x \<Longrightarrow> \<exists>x \<in> set xs. Q x \<and> \<not> P x \<Longrightarrow>
   length (filter P xs) < length (filter Q xs)"
proof (induction xs)
  case Nil
  then show ?case by simp
next
  case (Cons a xs)
  have le: "length (filter P xs) \<le> length (filter Q xs)"
    using Cons.prems(1) by (induction xs) auto
  show ?case
  proof (cases "Q a \<and> \<not> P a")
    case True
    then show ?thesis using le by simp
  next
    case False
    then have "\<exists>x \<in> set xs. Q x \<and> \<not> P x" using Cons.prems(2) by auto
    then have "length (filter P xs) < length (filter Q xs)" using Cons by auto
    then show ?thesis using Cons.prems(1) by auto
  qed
qed

lemma set_indices: "set (indices s) = {v. in_bounds s v}"
  by (cases s) auto

lemma distinct_indices: "distinct (indices s)"
proof (cases s)
  case (fields d h w)
  then show ?thesis by (simp add: distinct_product)
qed

function dilate_until_stable :: "bool ndarray \<Rightarrow> bool ndarray" where
  "dilate_until_stable a =
     (if same_elements (dilate1 a) a then dilate1 a else dilate_until_stable (dilate1 a))"
  by pat_completeness auto
termination
proof (relation "measure background_count")
  show "wf (measure background_count)" by simp
next
  fix a :: "bool ndarray"
  assume ne: "\<not> same_elements (dilate1 a) a"
  have sh: "shape (dilate1 a) = shape a" by (simp add: dilate1_def)
  have mono: "\<forall>v \<in> set (indices (shape a)). \<not> data (dilate1 a) v \<longrightarrow> \<not> data a v"
    by (auto simp: dilate1_def set_indices)
  from ne obtain v where v: "v \<in> set (indices (shape a))" "data (dilate1 a) v \<noteq> data a v"
    by (auto simp: same_elements_def sh)
  with mono have "\<not> data a v \<and> \<not> \<not> data (dilate1 a) v" by auto
  with v(1) have ex: "\<exists>v \<in> set (indices (shape a)). \<not> data a v \<and> \<not> \<not> data (dilate1 a) v" by blast
  have "background_count (dilate1 a) < background_count a"
    unfolding background_count_def sh
    by (rule filter_length_less[OF mono ex])
  then show "(dilate1 a, a) \<in> measure background_count" by simp
qed

declare dilate_until_stable.simps [simp del]

definition binary_dilation :: "bool ndarray \<Rightarrow> nat \<Rightarrow> bool ndarray" where
  "binary_dilation input iterations =
     (if 1 \<le> iterations then (dilate1 ^^ iterations) input else dilate_until_stable input)"

text \<open>
  \<open>cc3d.connected_components(binary)\<close> with its default 26-connectivity: background
  gets 0 and each connected component of the true voxels one label of 1, 2, ... The library is
  not part of the repository; it is modelled by label propagation. Every true voxel starts
  with its own label (one more than its position in C order), each round gives every true
  voxel the least label among itself and its true 26-neighbours, until nothing changes; the
  surviving labels are then renumbered 1, 2, ... in increasing order, which is the order in
  which the components first appear in C order.
\<close>

definition neighbours26 :: "idx \<Rightarrow> idx list" where
  "neighbours26 v =
     filter (\<lambda>u. u \<noteq> v)
       (List.product [axis0 v - 1..<axis0 v + 2]
          (List.product [axis1 v - 1..<axis1 v + 2] [axis2 v - 1..<axis2 v + 2]))"

definition lookup :: "(idx \<times> nat) list \<Rightarrow> idx \<Rightarrow> nat" where
  "lookup L v = (case map_of L v of None \<Rightarrow> 0 | Some k \<Rightarrow> k)"

definition min_label :: "(idx \<times> nat) list \<Rightarrow> idx \<Rightarrow> nat \<Rightarrow> nat" where
  "min_label L v k =
     (if k = 0 then 0
      else Min (set (k # filter (\<lambda>j. j \<noteq> 0) (map (lookup L) (neighbours26 v)))))"

definition relabel :: "(idx \<times> nat) list \<Rightarrow> (idx \<times> nat) list" where
  "relabel L = map (\<lambda>(v, k). (v, min_label L v k)) L"

definition label_sum :: "(idx \<times> nat) list \<Rightarrow> nat" where
  "label_sum L = sum_list (map snd L)"

lemma min_label_le: "min_label L v k \<le> k"
  by (simp add: min_label_def)

lemma relabel_sum_less_aux:
  "map (\<lambda>(v, k). (v, f v k)) L \<noteq> L \<Longrightarrow> (\<And>v k. f v k \<le> (k::nat)) \<Longrightarrow>
   sum_list (map snd (map (\<lambda>(v, k). (v, f v k)) L)) < sum_list (map snd L)"
proof (induction L)
  case Nil
  then show ?case by simp
next
  case (Cons p L)
  obtain v k where p: "p = (v, k)" by (cases p)
  have le: "sum_list (map snd (map (\<lambda>(v, k). (v, f v k)) L)) \<le> sum_list (map snd L)"
    using Cons.prems(2) by (induction L) (auto simp: add_mono)
  show ?case
  proof (cases "f v k = k")
    case True
    then have "map (\<lambda>(v, k). (v, f v k)) L \<noteq> L" using Cons.prems(1) p by auto
    then show ?thesis using Cons.IH Cons.prems(2) p True by auto
  next
    case False
    then have "f v k < k" using Cons.prems(2)[of v k] by simp
    then show ?thesis using le p by auto
  qed
qed

function propagate :: "(idx \<times> nat) list \<Rightarrow> (idx \<times> nat) list" where
  "propagate L = (if relabel L = L then L else propagate (relabel L))"
  by pat_completeness auto
termination
proof (relation "measure label_sum")
  show "wf (measure label_sum)" by simp
next
  fix L :: "(idx \<times> nat) list"
  assume "relabel L \<noteq> L"
  then have "label_sum (relabel L) < label_sum L"
    unfolding relabel_def label_sum_def
    by (rule relabel_sum_less_aux) (rule min_label_le)
  then show "(relabel L, L) \<in> measure label_sum" by simp
qed

declare propagate.simps [simp del]

definition init_labels :: "bool ndarray \<Rightarrow> (idx \<times> nat) list" where
  "init_labels binary =
     map (\<lambda>(i, v). (v, if data binary v then Suc i else 0)) (enumerate 0 (indices (shape binary)))"

definition rank :: "nat list \<Rightarrow> nat \<Rightarrow> nat" where
  "rank ks k = Suc (length (filter (\<lambda>j. j < k) ks))"

definition connected_components :: "bool ndarray \<Rightarrow> nat ndarray" where
  "connected_components binary =
     (let L = propagate (init_labels binary);
          ks = remdups (filter (\<lambda>k. k \<noteq> 0) (map snd L))
      in \<lparr>shape = shape binary,
          data = (\<lambda>v. let k = lookup L v in if k = 0 then 0 else rank ks k)\<rparr>)"

text \<open>
  The labels \<open>cc3d.each(cc, binary=True, in_place=True)\<close> iterates over: every non-zero
  label of \<open>cc\<close>, in increasing order. The binary image it yields with label \<open>k\<close> is
  \<open>eq_scalar cc k\<close>.
\<close>

definition each :: "nat ndarray \<Rightarrow> nat list" where
  "each cc = sort (remdups (filter (\<lambda>k. k \<noteq> 0) (flatten cc)))"

section \<open>Double precision\<close>

text \<open>Python's \<open>round\<close>: to the nearest integer, a tie to the even one.\<close>

definition py_round :: "rat \<Rightarrow> int" where
  "py_round r =
     (let f = \<lfloor>r\<rfloor>; d = r - of_int f
      in if d < 1 / 2 then f else if 1 / 2 < d then f + 1 else if even f then f else f + 1)"

text \<open>
  A Python \<open>float\<close> and a numpy \<open>float64\<close> are IEEE 754 doubles. A finite double is
  taken as the rational number it denotes. \<open>float64_round q\<close> is the double nearest to
  \<open>q\<close>, a tie going to the double with an even significand: the significand has 53 bits,
  so the doubles around \<open>q\<close> are the multiples of \<open>2\<close> to the power
  \<open>binary_exponent q - 52\<close>, and below \<open>2\<close> to the power \<open>- 1022\<close> the multiples of
  \<open>2\<close> to the power \<open>- 1074\<close>. A number written in a call is held as
  \<open>float64_round\<close> of it, an operation on doubles gives \<open>float64_round\<close> of its exact
  result, and doubles are compared exactly. Magnitudes from \<open>2\<close> to the power \<open>1024\<close>
  on, where Python has \<open>inf\<close>, are not modelled.
\<close>

function bit_length :: "int \<Rightarrow> int" where
  "bit_length n = (if n \<le> 0 then 0 else bit_length (n div 2) + 1)"
  by pat_completeness auto
termination by (relation "measure nat") auto

declare bit_length.simps [simp del]

definition pow2 :: "int \<Rightarrow> rat" where
  "pow2 k = (if 0 \<le> k then 2 ^ nat k else 1 / 2 ^ nat (- k))"

text \<open>The integer \<open>e\<close> with \<open>pow2 e \<le> \<bar>q\<bar> < pow2 (e + 1)\<close>, for \<open>q\<close> other than 0.\<close>

definition binary_exponent :: "rat \<Rightarrow> int" where
  "binary_exponent q =
     (case quotient_of \<bar>q\<bar> of
        (a, b) \<Rightarrow>
          (let k = bit_length a - bit_length b
           in if pow2 k \<le> \<bar>q\<bar> then k else k - 1))"

definition float64_round :: "rat \<Rightarrow> rat" where
  "float64_round q =
     (if q = 0 then 0
      else (let ulp = pow2 (max (binary_exponent q) (- 1022) - 52)
            in of_int (py_round (q / ulp)) * ulp))"

section \<open>The cropper: \<open>crop_to_boxes_of_interset_cc\<close>\<close>

text \<open>
  The class \<open>cropping_params\<close>. The margins are non-negative;
  \<open>allowed_perc_other_blobs\<close> is the number written in the call, which Python holds as a
  double.
\<close>

record cropping_params =
  cropping_lable :: int
  slice_margins :: "nat \<times> nat \<times> nat"
  allowed_perc_other_blobs :: rat
  mask_dilation :: nat

text \<open>
  One element of the list the cropper returns: the CT crop, the label crop and the location
  string. Both crops are views of the volumes they were cut from, so \<open>crop_ranges\<close> keeps
  the slices of the view; \<open>crop_seg\<close> holds the elements of the label view when it was cut.
\<close>

record crop =
  crop_ct :: "int ndarray"
  crop_seg :: "int ndarray"
  crop_ranges :: ranges
  location_string :: string

text \<open>\<open>slice(x.min(), x.max() + 1)\<close>, the tight slice of one axis (line 102).\<close>

definition tight_slice :: "nat list \<Rightarrow> slice" where
  "tight_slice xs = (Min (set xs), Max (set xs) + 1)"

text \<open>
  \<open>slice(max(0, x.min() - m), x.max() + m)\<close>, the slice with margins of one axis (lines
  111 to 113). The subtraction of natural numbers stops at 0.
\<close>

definition margin_slice :: "nat \<Rightarrow> nat list \<Rightarrow> slice" where
  "margin_slice m xs = (Min (set xs) - m, Max (set xs) + m)"

definition relevant_ranges :: "idx list \<Rightarrow> ranges" where
  "relevant_ranges nwhere =
     (tight_slice (map axis0 nwhere), tight_slice (map axis1 nwhere),
      tight_slice (map axis2 nwhere))"

fun ranges_with_margins :: "nat \<times> nat \<times> nat \<Rightarrow> idx list \<Rightarrow> ranges" where
  "ranges_with_margins (m0, m1, m2) nwhere =
     (margin_slice m0 (map axis0 nwhere), margin_slice m1 (map axis1 nwhere),
      margin_slice m2 (map axis2 nwhere))"

text \<open>\<open>"-".join([str((x.stop - x.start) // 2) for x in ranges_with_margins])\<close> (line 114).\<close>

definition half_extent :: "slice \<Rightarrow> nat" where
  "half_extent s = (snd s - fst s) div 2"

fun location_string_of :: "ranges \<Rightarrow> string" where
  "location_string_of (sz, sy, sx) =
     str_nat (half_extent sz) @ ''-'' @ str_nat (half_extent sy) @ ''-'' @
     str_nat (half_extent sx)"

text \<open>
  Lines 103 to 105: the number of voxels of the tight box that \<open>np.delete\<close> leaves, after
  it removed the count at position 0 and the count of the blob's own label.
\<close>

definition other_non_bg_occurances :: "nat ndarray \<Rightarrow> ranges \<Rightarrow> nat \<Rightarrow> error + nat" where
  "other_non_bg_occurances cc rr label =
     (case np_unique (flatten (getitem cc rr)) of
        (values, counts) \<Rightarrow>
          (case first_index values label of
             Inl e \<Rightarrow> Inl e
           | Inr label_idx \<Rightarrow>
               (case np_delete counts [0, label_idx] of
                  Inl e \<Rightarrow> Inl e
                | Inr rest \<Rightarrow> Inr (sum_list rest))))"

text \<open>
  Line 108: the test that skips a blob. numpy turns the count and the size into doubles and
  divides them in double precision; the quotient is compared with the double of the
  tolerance. A division by 0 raises nothing in numpy: it gives \<open>inf\<close>, which is above every
  tolerance, or \<open>nan\<close> for \<open>0 / 0\<close>, which is above none.
\<close>

definition too_many_other_blobs :: "nat \<Rightarrow> nat \<Rightarrow> rat \<Rightarrow> bool" where
  "too_many_other_blobs other n allowed =
     (if n = 0 then other \<noteq> 0
      else float64_round (float64_round (of_nat other) / float64_round (of_nat n)) >
           float64_round allowed)"

text \<open>
  The body of the loop (lines 101 to 115) for one label: \<open>Inr None\<close> is the \<open>continue\<close>
  of line 109, \<open>Inr (Some c)\<close> the crop line 115 appends. \<open>x.min()\<close> raises ValueError
  when no voxel carries the label.
\<close>

definition blob_crop ::
  "int ndarray \<Rightarrow> int ndarray \<Rightarrow> cropping_params \<Rightarrow> nat ndarray \<Rightarrow> nat \<Rightarrow> error + crop option"
where
  "blob_crop image_volume labels_volume params cc label =
     (let nwhere = np_where (eq_scalar cc label) in
      if nwhere = [] then Inl ValueError
      else
        (case other_non_bg_occurances cc (relevant_ranges nwhere) label of
           Inl e \<Rightarrow> Inl e
         | Inr other \<Rightarrow>
             if too_many_other_blobs other
                  (size_of (shape (getitem cc (relevant_ranges nwhere))))
                  (allowed_perc_other_blobs params)
             then Inr None
             else
               (let r = ranges_with_margins (slice_margins params) nwhere in
                Inr (Some \<lparr>crop_ct = getitem image_volume r,
                           crop_seg = getitem labels_volume r,
                           crop_ranges = r,
                           location_string = location_string_of r\<rparr>))))"

fun crops_loop ::
  "int ndarray \<Rightarrow> int ndarray \<Rightarrow> cropping_params \<Rightarrow> nat ndarray \<Rightarrow> nat list \<Rightarrow> error + crop list"
where
  "crops_loop image_volume labels_volume params cc [] = Inr []"
| "crops_loop image_volume labels_volume params cc (label # labels) =
     (case blob_crop image_volume labels_volume params cc label of
        Inl e \<Rightarrow> Inl e
      | Inr c \<Rightarrow>
          (case crops_loop image_volume labels_volume params cc labels of
             Inl e \<Rightarrow> Inl e
           | Inr crops \<Rightarrow> Inr (case c of None \<Rightarrow> crops | Some x \<Rightarrow> x # crops)))"

text \<open>
  Lines 93 to 117. Line 97 calls \<open>binary_dilation\<close> and drops what it returns, so
  \<open>binary_volume\<close> reaches \<open>connected_components\<close> as line 96 made it.
\<close>

definition crop_to_boxes_of_interset_cc ::
  "int ndarray \<Rightarrow> int ndarray \<Rightarrow> cropping_params \<Rightarrow> error + crop list"
where
  "crop_to_boxes_of_interset_cc image_volume labels_volume params =
     (let binary_volume = eq_scalar labels_volume (cropping_lable params);
          dropped = binary_dilation binary_volume (mask_dilation params);
          cc = connected_components binary_volume
      in crops_loop image_volume labels_volume params cc (each cc))"

section \<open>The dataset builder: \<open>create_dataset\<close>\<close>

definition IMG_MIN_VAL :: int where "IMG_MIN_VAL = - 512"
definition IMG_MAX_VAL :: int where "IMG_MAX_VAL = 512"

text \<open>\<open>np.clip(a, lo, hi)\<close>: a new array.\<close>

definition np_clip :: "int ndarray \<Rightarrow> int \<Rightarrow> int \<Rightarrow> int ndarray" where
  "np_clip a lo hi = \<lparr>shape = shape a, data = (\<lambda>v. min hi (max lo (data a v)))\<rparr>"

text \<open>
  What the builder takes from outside the repository and this development does not compute:
  Python's rendering of a float in an f-string, and the two interpolations of
  \<open>scipy.ndimage.zoom\<close>, both done in floating point. \<open>spline_value f a v\<close> is the element
  of \<open>zoom(a, f, order=3)\<close> at \<open>v\<close>; \<open>nearest_index f s v\<close> is the index of the input
  element that \<open>zoom(a, f, order=0)\<close> copies to \<open>v\<close>, for an input of shape \<open>s\<close>.
\<close>

record collaborators =
  str_float :: "rat \<Rightarrow> string"
  spline_value :: "rat \<times> rat \<times> rat \<Rightarrow> int ndarray \<Rightarrow> idx \<Rightarrow> int"
  nearest_index :: "rat \<times> rat \<times> rat \<Rightarrow> nat \<times> nat \<times> nat \<Rightarrow> idx \<Rightarrow> idx"

text \<open>
  The shape \<open>zoom\<close> gives its output, whatever the order: \<open>int(round(n * f))\<close> per axis,
  the product taken in double precision.
\<close>

definition zoom_length :: "nat \<Rightarrow> rat \<Rightarrow> nat" where
  "zoom_length n f =
     nat (py_round (float64_round (float64_round (of_nat n) * float64_round f)))"

fun zoom_shape :: "rat \<times> rat \<times> rat \<Rightarrow> nat \<times> nat \<times> nat \<Rightarrow> nat \<times> nat \<times> nat" where
  "zoom_shape (fz, fy, fx) (d, h, w) = (zoom_length d fz, zoom_length h fy, zoom_length w fx)"

definition zoom_order3 :: "collaborators \<Rightarrow> rat \<times> rat \<times> rat \<Rightarrow> int ndarray \<Rightarrow> int ndarray" where
  "zoom_order3 ext f a = \<lparr>shape = zoom_shape f (shape a), data = spline_value ext f a\<rparr>"

definition zoom_order0 :: "collaborators \<Rightarrow> rat \<times> rat \<times> rat \<Rightarrow> int ndarray \<Rightarrow> int ndarray" where
  "zoom_order0 ext f a =
     \<lparr>shape = zoom_shape f (shape a),
      data = (\<lambda>v. data a (nearest_index ext f (shape a) v))\<rparr>"

text \<open>
  The arguments of \<open>create_dataset\<close> after \<open>root_dir\<close>; \<open>slice_size_mm\<close> and
  \<open>spatial_scale\<close> are the numbers written in the call, which Python holds as doubles.
\<close>

record dataset_config =
  slice_size_mm :: rat
  spatial_scale :: rat
  min_sizes :: "int \<times> int \<times> int"
  crop_params :: "cropping_params option"
  remove_liver_label :: bool

text \<open>
  One entry of \<open>root_dir/ct\<close> as lines 143 to 147 read it: the name \<open>os.listdir\<close> returned
  (it holds no \<open>/\<close>), the CT array, the last component of the CT's spacing, and the array of
  the segmentation file.
\<close>

record volume_file =
  ct_filename :: string
  ct_array :: "int ndarray"
  ct_spacing_z :: rat
  seg_array :: "int ndarray"

text \<open>
  What lines 185 and 186 write for one crop: \<open>np.save(path, ct_array)\<close>, then
  \<open>np.save(path.replace('volume', 'segmentation'), seg_array)\<close>.
\<close>

record saved =
  ct_path :: string
  ct_saved :: "int ndarray"
  seg_path :: string
  seg_saved :: "int ndarray"

text \<open>The files on disk after a sequence of such writes: a later write to a path replaces
  an earlier one.\<close>

definition np_save_pair :: "(string \<rightharpoonup> int ndarray) \<Rightarrow> saved \<Rightarrow> (string \<rightharpoonup> int ndarray)" where
  "np_save_pair disk s = (disk(ct_path s \<mapsto> ct_saved s))(seg_path s \<mapsto> seg_saved s)"

definition disk_after :: "saved list \<Rightarrow> (string \<rightharpoonup> int ndarray)" where
  "disk_after saves = foldl np_save_pair Map.empty saves"

text \<open>
  \<open>view[view == old] = new\<close> for the view \<open>base[r]\<close>: the assignment writes through to
  \<open>base\<close>, at the indices the view covers.
\<close>

fun in_view :: "nat \<times> nat \<times> nat \<Rightarrow> ranges \<Rightarrow> idx \<Rightarrow> bool" where
  "in_view (d, h, w) (sz, sy, sx) (z, y, x) =
     (slice_start d sz \<le> z \<and> z < slice_start d sz + slice_len d sz \<and>
      slice_start h sy \<le> y \<and> y < slice_start h sy + slice_len h sy \<and>
      slice_start w sx \<le> x \<and> x < slice_start w sx + slice_len w sx)"

definition assign_where :: "int ndarray \<Rightarrow> ranges \<Rightarrow> int \<Rightarrow> int \<Rightarrow> int ndarray" where
  "assign_where base r old new =
     base\<lparr>data := (\<lambda>v. if in_view (shape base) r v \<and> data base v = old then new
                      else data base v)\<rparr>"

text \<open>Lines 163 to 165, on the label view of the blob.\<close>

definition remove_liver :: "int ndarray \<Rightarrow> ranges \<Rightarrow> int ndarray" where
  "remove_liver seg r = assign_where (assign_where seg r 1 0) r 2 1"

text \<open>
  Line 168, the test that asks for resampling, and line 169, the zoom factors: the quotient
  of the spacing and \<open>slice_size_mm\<close> in double precision.
\<close>

definition resampling :: "dataset_config \<Rightarrow> bool" where
  "resampling cfg \<longleftrightarrow>
     float64_round (slice_size_mm cfg) \<noteq> 1 \<or> float64_round (spatial_scale cfg) \<noteq> 1"

definition new_dims :: "dataset_config \<Rightarrow> rat \<Rightarrow> rat \<times> rat \<times> rat" where
  "new_dims cfg spacing =
     (float64_round (float64_round spacing / float64_round (slice_size_mm cfg)),
      float64_round (spatial_scale cfg), float64_round (spatial_scale cfg))"

text \<open>
  Lines 168 to 171. The division by \<open>slice_size_mm\<close> raises ZeroDivisionError when it is 0.
\<close>

definition resample ::
  "collaborators \<Rightarrow> dataset_config \<Rightarrow> rat \<Rightarrow> int ndarray \<Rightarrow> int ndarray \<Rightarrow>
   error + (int ndarray \<times> int ndarray)"
where
  "resample ext cfg spacing ct seg =
     (if resampling cfg then
        (if float64_round (slice_size_mm cfg) = 0 then Inl ZeroDivisionError
         else Inr (zoom_order3 ext (new_dims cfg spacing) ct,
                   zoom_order0 ext (new_dims cfg spacing) seg))
      else Inr (ct, seg))"

text \<open>Line 174: \<open>np.any(ct_array.shape < np.array(min_sizes))\<close>.\<close>

fun too_small :: "nat \<times> nat \<times> nat \<Rightarrow> int \<times> int \<times> int \<Rightarrow> bool" where
  "too_small (d, h, w) (m0, m1, m2) = (int d < m0 \<or> int h < m1 \<or> int w < m2)"

text \<open>
  \<open>os.path.splitext(name)[0]\<close> for a name without \<open>/\<close>: the name up to its last dot, when
  a character other than a dot stands in front of that dot, and the whole name otherwise.
\<close>

definition splitext_root :: "string \<Rightarrow> string" where
  "splitext_root name =
     (let stem = rev (tl (dropWhile (\<lambda>c. c \<noteq> CHR ''.'') (rev name)))
      in if CHR ''.'' \<in> set name \<and> (\<exists>c \<in> set stem. c \<noteq> CHR ''.'') then stem else name)"

text \<open>
  \<open>s.replace(old, new)\<close> for a non-empty \<open>old\<close>: every occurrence, from the left, without
  overlaps.
\<close>

fun replace_str :: "string \<Rightarrow> string \<Rightarrow> string \<Rightarrow> string" where
  "replace_str old new [] = []"
| "replace_str old new (c # cs) =
     (if old \<noteq> [] \<and> prefix old (c # cs)
      then new @ replace_str old new (drop (length old - 1) cs)
      else c # replace_str old new cs)"

text \<open>\<open>os.path.join(a, b)\<close> for a non-empty \<open>a\<close> without a final \<open>/\<close> and a relative \<open>b\<close>.\<close>

definition path_join :: "string \<Rightarrow> string \<Rightarrow> string" where
  "path_join a b = a @ ''/'' @ b"

definition str_int :: "int \<Rightarrow> string" where
  "str_int i = (if i < 0 then ''-'' @ str_nat (nat (- i)) else str_nat (nat i))"

definition str_bool :: "bool \<Rightarrow> string" where
  "str_bool b = (if b then ''True'' else ''False'')"

fun str_tuple3 :: "string \<times> string \<times> string \<Rightarrow> string" where
  "str_tuple3 (a, b, c) = ''('' @ a @ '', '' @ b @ '', '' @ c @ '')''"

text \<open>\<open>cropping_params.__str__\<close> (lines 28 to 30).\<close>

definition str_cropping_params :: "collaborators \<Rightarrow> cropping_params \<Rightarrow> string" where
  "str_cropping_params ext p =
     ''[CL-'' @ str_int (cropping_lable p) @
     ''_margins-'' @
       (case slice_margins p of (m0, m1, m2) \<Rightarrow> str_tuple3 (str_nat m0, str_nat m1, str_nat m2)) @
     ''_OB-'' @ str_float ext (allowed_perc_other_blobs p) @
     ''_MD-'' @ str_nat (mask_dilation p) @ '']''"

text \<open>Lines 130 to 134.\<close>

definition processed_dir :: "collaborators \<Rightarrow> dataset_config \<Rightarrow> string" where
  "processed_dir ext cfg =
     ''LiverData_(S-'' @ str_float ext (spatial_scale cfg) @
     ''_MS-'' @
       (case min_sizes cfg of (m0, m1, m2) \<Rightarrow> str_tuple3 (str_int m0, str_int m1, str_int m2)) @
     ''_MM-'' @ str_float ext (slice_size_mm cfg) @
     ''RL-'' @ str_bool (remove_liver_label cfg) @
     (case crop_params cfg of None \<Rightarrow> [] | Some p \<Rightarrow> ''_CP-'' @ str_cropping_params ext p) @
     '')''"

definition new_ct_dir :: "collaborators \<Rightarrow> dataset_config \<Rightarrow> string" where
  "new_ct_dir ext cfg = path_join (processed_dir ext cfg) ''ct''"

text \<open>Lines 178 to 184.\<close>

definition crop_fname :: "string \<Rightarrow> string \<Rightarrow> nat \<Rightarrow> string" where
  "crop_fname filename loc blob_idx =
     splitext_root filename @
     (if loc \<noteq> [] then ''-('' @ loc @ '').npy'' else ''-'' @ str_nat blob_idx @ ''.npy'')"

text \<open>
  The body of the loop of line 160 for one blob. \<open>seg\<close> is the label array of the volume
  as the blobs ahead of this one left it: the label crop is a view of it, so lines 164 and 165
  change it, and the label crop is read from it afterwards. The result is the label array
  after the blob, and what was saved (\<open>None\<close> for the \<open>continue\<close> of line 175).
\<close>

definition process_blob ::
  "collaborators \<Rightarrow> dataset_config \<Rightarrow> string \<Rightarrow> volume_file \<Rightarrow> nat \<Rightarrow> crop \<Rightarrow> int ndarray \<Rightarrow>
   error + (int ndarray \<times> saved option)"
where
  "process_blob ext cfg dir f blob_idx b seg =
     (let seg1 = (if remove_liver_label cfg then remove_liver seg (crop_ranges b) else seg) in
      case resample ext cfg (ct_spacing_z f) (crop_ct b) (getitem seg1 (crop_ranges b)) of
        Inl e \<Rightarrow> Inl e
      | Inr (ct_a, seg_a) \<Rightarrow>
          if too_small (shape ct_a) (min_sizes cfg) then Inr (seg1, None)
          else
            (let path = path_join dir (crop_fname (ct_filename f) (location_string b) blob_idx)
             in Inr (seg1, Some \<lparr>ct_path = path, ct_saved = ct_a,
                                  seg_path = replace_str ''volume'' ''segmentation'' path,
                                  seg_saved = seg_a\<rparr>)))"

text \<open>
  The loop of line 160 over the blobs of one volume, from blob index \<open>i\<close>: what it saved, in
  order, and the exception that ended it, if any.
\<close>

fun blobs_loop ::
  "collaborators \<Rightarrow> dataset_config \<Rightarrow> string \<Rightarrow> volume_file \<Rightarrow> nat \<Rightarrow> crop list \<Rightarrow> int ndarray \<Rightarrow>
   saved list \<times> error option"
where
  "blobs_loop ext cfg dir f i [] seg = ([], None)"
| "blobs_loop ext cfg dir f i (b # bs) seg =
     (case process_blob ext cfg dir f i b seg of
        Inl e \<Rightarrow> ([], Some e)
      | Inr (seg', s) \<Rightarrow>
          (case blobs_loop ext cfg dir f (Suc i) bs seg' of
             (saves, err) \<Rightarrow> ((case s of None \<Rightarrow> saves | Some x \<Rightarrow> x # saves), err)))"

text \<open>Lines 155 to 158. Without cropping parameters the one blob is the whole volume.\<close>

fun full_ranges :: "nat \<times> nat \<times> nat \<Rightarrow> ranges" where
  "full_ranges (d, h, w) = ((0, d), (0, h), (0, w))"

definition all_blobs :: "dataset_config \<Rightarrow> int ndarray \<Rightarrow> int ndarray \<Rightarrow> error + crop list" where
  "all_blobs cfg ct seg =
     (case crop_params cfg of
        Some p \<Rightarrow> crop_to_boxes_of_interset_cc ct seg p
      | None \<Rightarrow> Inr [\<lparr>crop_ct = ct, crop_seg = seg, crop_ranges = full_ranges (shape seg),
                      location_string = []\<rparr>])"

text \<open>The body of the loop of line 141 for one volume (lines 143 to 186).\<close>

definition process_file ::
  "collaborators \<Rightarrow> dataset_config \<Rightarrow> string \<Rightarrow> volume_file \<Rightarrow> saved list \<times> error option"
where
  "process_file ext cfg dir f =
     (if shape (seg_array f) \<noteq> shape (ct_array f) then ([], Some AssertionError)
      else
        (let ct = np_clip (ct_array f) IMG_MIN_VAL IMG_MAX_VAL in
         case all_blobs cfg ct (seg_array f) of
           Inl e \<Rightarrow> ([], Some e)
         | Inr blobs \<Rightarrow> blobs_loop ext cfg dir f 0 blobs (seg_array f)))"

text \<open>
  The loop of line 141 over the volumes, in the order \<open>os.listdir\<close> gave them: everything
  saved until the loop ended, and the exception that ended it, if any.
\<close>

fun files_loop ::
  "collaborators \<Rightarrow> dataset_config \<Rightarrow> string \<Rightarrow> volume_file list \<Rightarrow> saved list \<times> error option"
where
  "files_loop ext cfg dir [] = ([], None)"
| "files_loop ext cfg dir (f # fs) =
     (case process_file ext cfg dir f of
        (saves, Some e) \<Rightarrow> (saves, Some e)
      | (saves, None) \<Rightarrow>
          (case files_loop ext cfg dir fs of (saves', err) \<Rightarrow> (saves @ saves', err)))"

definition create_dataset ::
  "collaborators \<Rightarrow> dataset_config \<Rightarrow> volume_file list \<Rightarrow> saved list \<times> error option"
where
  "create_dataset ext cfg files = files_loop ext cfg (new_ct_dir ext cfg) files"

section \<open>Concrete inputs\<close>

text \<open>
  Small volumes on which the theorems below are run: \<open>row xs\<close> is the volume of shape
  \<open>(1, 1, length xs)\<close> with the elements \<open>xs\<close>.
\<close>

definition row :: "int list \<Rightarrow> int ndarray" where
  "row xs = \<lparr>shape = (1, 1, length xs), data = (\<lambda>v. xs ! axis2 v)\<rparr>"

definition example_params :: cropping_params where
  "example_params =
     \<lparr>cropping_lable = 2, slice_margins = (1, 1, 1), allowed_perc_other_blobs = 1 / 2,
      mask_dilation = 1\<rparr>"

text \<open>
  Stand-ins for the collaborators: a rendering of floats without letters, a zoom of order 3
  that copies, and a nearest index that stays inside the input.
\<close>

definition example_ext :: collaborators where
  "example_ext =
     \<lparr>str_float = (\<lambda>r. ''1.0''),
      spline_value = (\<lambda>f a v. data a v),
      nearest_index = (\<lambda>f s v. (min (axis0 v) (axis0 s - 1), min (axis1 v) (axis1 s - 1),
                                 min (axis2 v) (axis2 s - 1)))\<rparr>"

definition example_config :: dataset_config where
  "example_config =
     \<lparr>slice_size_mm = 1, spatial_scale = 1, min_sizes = (1, 1, 2),
      crop_params = Some example_params, remove_liver_label = True\<rparr>"

definition example_file :: volume_file where
  "example_file =
     \<lparr>ct_filename = ''volume-0.nii'', ct_array = row [5, 600, 7, 8, 9, -700, 11],
      ct_spacing_z = 1, seg_array = row [2, 2, 0, 1, 2, 2, 0]\<rparr>"

definition mismatched_file :: volume_file where
  "mismatched_file =
     \<lparr>ct_filename = ''volume-1.nii'', ct_array = row [1, 2, 3],
      ct_spacing_z = 1, seg_array = row [0, 2]\<rparr>"

definition unnamed_file :: volume_file where
  "unnamed_file = example_file\<lparr>ct_filename := ''scan-7.nii''\<rparr>"

text \<open>
  The scenario of the specification: a volume of shape \<open>(50, 100, 100)\<close> whose only labels
  are the 2s of the block \<open>[10:20, 30:40, 30:40]\<close>, cropped around label 2 with margins
  \<open>(1, 2, 2)\<close> and tolerance 0.5.
\<close>

definition scenario_labels :: "int ndarray" where
  "scenario_labels =
     \<lparr>shape = (50, 100, 100),
      data = (\<lambda>v. if 10 \<le> axis0 v \<and> axis0 v < 20 \<and> 30 \<le> axis1 v \<and> axis1 v < 40 \<and>
                     30 \<le> axis2 v \<and> axis2 v < 40 then 2 else 0)\<rparr>"

definition scenario_params :: cropping_params where
  "scenario_params =
     \<lparr>cropping_lable = 2, slice_margins = (1, 2, 2), allowed_perc_other_blobs = 1 / 2,
      mask_dilation = 3\<rparr>"

text \<open>
  A slice of 3 by 3 voxels with two components of label 2: an L of five voxels, and one
  voxel in the corner the L leaves free, inside the tight box of the L.
\<close>

definition corner_labels :: "int ndarray" where
  "corner_labels =
     \<lparr>shape = (1, 3, 3),
      data = (\<lambda>v. [[2, 0, 2], [2, 0, 0], [2, 2, 2]] ! axis1 v ! axis2 v)\<rparr>"

definition strict_params :: cropping_params where
  "strict_params = example_params\<lparr>allowed_perc_other_blobs := 1 / 10\<rparr>"

text \<open>
  The tolerance that is the double nearest to one ninth; it lies below one ninth.
\<close>

definition ninth_params :: cropping_params where
  "ninth_params =
     example_params\<lparr>allowed_perc_other_blobs := 2001599834386887 / 18014398509481984\<rparr>"

text \<open>
  A volume whose CT values jump from below the clipping range to above it, a run that
  doubles the in-plane resolution of whole volumes, and a stand-in for the zoom of order 3
  that does at the jump what a cubic spline does there: it goes beyond the values on both
  sides, here by 89. Output voxel \<open>x\<close> of a row shows input voxel \<open>x div 2\<close>.
\<close>

definition edge_file :: volume_file where
  "edge_file =
     \<lparr>ct_filename = ''volume-2.nii'', ct_array = row [- 1000, - 1000, 1000, 1000],
      ct_spacing_z = 1, seg_array = row [0, 0, 1, 1]\<rparr>"

definition upscaling_config :: dataset_config where
  "upscaling_config =
     \<lparr>slice_size_mm = 1, spatial_scale = 2, min_sizes = (1, 1, 1),
      crop_params = None, remove_liver_label = False\<rparr>"

definition overshooting_ext :: collaborators where
  "overshooting_ext =
     example_ext\<lparr>spline_value :=
       (\<lambda>f a v. data a (0, 0, axis2 v div 2) +
                 (if axis2 v = 3 then - 89 else if axis2 v = 4 then 89 else 0))\<rparr>"

text \<open>
  A volume with two blobs of label 2 that lie two voxels apart, cropped with margins of
  three voxels, so that the crop of each blob holds the other blob.
\<close>

definition overlap_file :: volume_file where
  "overlap_file =
     \<lparr>ct_filename = ''volume-3.nii'', ct_array = row [5, 6, 7, 8],
      ct_spacing_z = 1, seg_array = row [2, 0, 2, 0]\<rparr>"

definition overlap_config :: dataset_config where
  "overlap_config =
     \<lparr>slice_size_mm = 1, spatial_scale = 1, min_sizes = (1, 1, 1),
      crop_params = Some (example_params\<lparr>slice_margins := (3, 3, 3)\<rparr>),
      remove_liver_label = True\<rparr>"

section \<open>Notions used to state the claims\<close>

text \<open>
  The voxel of the volume's label array that the voxel \<open>v\<close> of the saved label crop of
  blob \<open>b\<close> shows: \<open>v\<close> itself, or the voxel the zoom of order 0 copies to \<open>v\<close>, moved
  by the origin of the blob's view.
\<close>

definition source_index :: "collaborators \<Rightarrow> dataset_config \<Rightarrow> volume_file \<Rightarrow> crop \<Rightarrow> idx \<Rightarrow> idx" where
  "source_index ext cfg f b v =
     offset (getitem_origin (shape (seg_array f)) (crop_ranges b))
       (if resampling cfg
        then nearest_index ext (new_dims cfg (ct_spacing_z f))
               (getitem_shape (shape (seg_array f)) (crop_ranges b)) v
        else v)"

text \<open>
  The label array of a volume after some blobs were remapped in place: every voxel holds
  its first value, or what one or two rounds of lines 164 and 165 made of it.
\<close>

definition remapped_from :: "int ndarray \<Rightarrow> int ndarray \<Rightarrow> bool" where
  "remapped_from orig seg \<longleftrightarrow>
     shape seg = shape orig \<and>
     (\<forall>v. data seg v = data orig v \<or> (data orig v = 1 \<and> data seg v = 0) \<or>
          (data orig v = 2 \<and> (data seg v = 1 \<or> data seg v = 0)))"

text \<open>
  What the label table of \<open>connected_components\<close> keeps through every round: one entry
  per index of the volume, in C order, with label 0 exactly at the false voxels.
\<close>

definition labels_inv :: "bool ndarray \<Rightarrow> (idx \<times> nat) list \<Rightarrow> bool" where
  "labels_inv binary L \<longleftrightarrow>
     map fst L = indices (shape binary) \<and> (\<forall>(v, k) \<in> set L. k = 0 \<longleftrightarrow> \<not> data binary v)"

text \<open>
  The overlap filter in the words of the specification: the component labels inside the
  tight bounding box of a blob, the number of voxels of that box that carry a label other
  than 0 and other than the blob's own, and the contamination of the blob, that number
  divided by the number of voxels of the box: \<open>contamination\<close> is the quotient of the two
  numbers, \<open>contamination_float64\<close> their quotient in double precision.
\<close>

definition tight_box :: "nat ndarray \<Rightarrow> nat \<Rightarrow> nat ndarray" where
  "tight_box cc label = getitem cc (relevant_ranges (np_where (eq_scalar cc label)))"

definition other_voxels :: "nat ndarray \<Rightarrow> nat \<Rightarrow> nat" where
  "other_voxels cc label =
     length (filter (\<lambda>k. k \<noteq> 0 \<and> k \<noteq> label) (flatten (tight_box cc label)))"

definition contamination :: "nat ndarray \<Rightarrow> nat \<Rightarrow> rat" where
  "contamination cc label =
     of_nat (other_voxels cc label) / of_nat (size_of (shape (tight_box cc label)))"

definition contamination_float64 :: "nat ndarray \<Rightarrow> nat \<Rightarrow> rat" where
  "contamination_float64 cc label =
     float64_round (float64_round (of_nat (other_voxels cc label)) /
                    float64_round (of_nat (size_of (shape (tight_box cc label)))))"

text \<open>The crop that lines 111 to 115 cut for a blob that passed the filter.\<close>

definition crop_of :: "int ndarray \<Rightarrow> int ndarray \<Rightarrow> cropping_params \<Rightarrow> nat ndarray \<Rightarrow> nat \<Rightarrow> crop" where
  "crop_of image_volume labels_volume params cc label =
     (let r = ranges_with_margins (slice_margins params) (np_where (eq_scalar cc label))
      in \<lparr>crop_ct = getitem image_volume r, crop_seg = getitem labels_volume r,
          crop_ranges = r, location_string = location_string_of r\<rparr>)"

text \<open>
  Two true voxels of a mask are adjacent when each is among the 26 neighbours of the other;
  the components of the mask are the classes of the reflexive transitive closure of this
  relation. \<open>labels_reach\<close> is what the label table keeps besides \<open>labels_inv\<close>: every
  label other than 0 is the first label of a voxel from which its voxel can be reached.
\<close>

definition mask_adjacent :: "bool ndarray \<Rightarrow> (idx \<times> idx) set" where
  "mask_adjacent binary =
     {(u, v). in_bounds (shape binary) u \<and> data binary u \<and>
              in_bounds (shape binary) v \<and> data binary v \<and> v \<in> set (neighbours26 u)}"

definition labels_reach :: "bool ndarray \<Rightarrow> (idx \<times> nat) list \<Rightarrow> bool" where
  "labels_reach binary L \<longleftrightarrow>
     (\<forall>v k. (v, k) \<in> set L \<and> k \<noteq> 0 \<longrightarrow>
        (\<exists>u. (u, k) \<in> set (init_labels binary) \<and> (u, v) \<in> (mask_adjacent binary)\<^sup>*))"

section \<open>Lemmas about double precision\<close>

lemma float64_round_0 [simp]: "float64_round 0 = 0"
  by (simp add: float64_round_def)

lemma float64_round_1 [simp]: "float64_round 1 = 1"
  by code_simp

lemma float64_round_half [simp]: "float64_round (1 / 2) = 1 / 2"
  by code_simp

lemma not_resampling [simp]: "slice_size_mm cfg = 1 \<Longrightarrow> spatial_scale cfg = 1 \<Longrightarrow> \<not> resampling cfg"
  by (simp add: resampling_def)

text \<open>
  The doubles of some decimal numbers, and a product that the rounding moves below the
  tie: \<open>45 * 0.7\<close> is \<open>31.499999999999996\<close> in double precision and rounds to 31, where
  the product of the numbers written, \<open>31.5\<close>, rounds to 32.
\<close>

lemma float64_round_examples:
  "float64_round (1 / 10) = 3602879701896397 / 36028797018963968"
  "float64_round (3 / 10) = 5404319552844595 / 18014398509481984"
  "float64_round (1 / 9) = 2001599834386887 / 18014398509481984"
  "float64_round (2 ^ 53 + 1) = 2 ^ 53"
  "float64_round (2 ^ 53 + 3) = 2 ^ 53 + 4"
  "float64_round (- 1 / 3) = - 6004799503160661 / 18014398509481984"
  by code_simp+

lemma zoom_length_example: "zoom_length 45 (7 / 10) = 31 \<and> py_round (45 * (7 / 10)) = 32"
  by code_simp

section \<open>Lemmas about the loops\<close>

lemma files_loop_append_error:
  "snd (process_file ext cfg dir f) \<noteq> None \<Longrightarrow> fst (process_file ext cfg dir f) = [] \<Longrightarrow>
   fst (files_loop ext cfg dir (pre @ f # post)) = fst (files_loop ext cfg dir pre) \<and>
   snd (files_loop ext cfg dir (pre @ f # post)) =
     (case snd (files_loop ext cfg dir pre) of None \<Rightarrow> snd (process_file ext cfg dir f) | Some e \<Rightarrow> Some e)"
proof (induction pre)
  case Nil
  then show ?case by (cases "process_file ext cfg dir f") (auto split: option.splits)
next
  case (Cons g pre)
  then show ?case
    by (cases "process_file ext cfg dir g") (auto split: option.splits prod.splits)
qed

lemma shape_getitem [simp]: "shape (getitem a r) = getitem_shape (shape a) r"
  by (simp add: getitem_def)

lemma shape_assign_where [simp]: "shape (assign_where a r old new) = shape a"
  by (simp add: assign_where_def)

lemma shape_remove_liver [simp]: "shape (remove_liver seg r) = shape seg"
  by (simp add: remove_liver_def)

lemma shape_np_clip [simp]: "shape (np_clip a lo hi) = shape a"
  by (simp add: np_clip_def)

lemma getitem_shape_full [simp]: "getitem_shape s (full_ranges s) = s"
  by (cases s) (simp add: slice_len_def)

lemma resample_shapes:
  "resample ext cfg sp ct seg = Inr (ct_a, seg_a) \<Longrightarrow> shape ct = shape seg \<Longrightarrow>
   shape ct_a = shape seg_a"
  by (auto simp: resample_def zoom_order3_def zoom_order0_def split: if_splits)

lemma crops_loop_fields:
  "crops_loop image_volume labels_volume params cc labels = Inr crops \<Longrightarrow> c \<in> set crops \<Longrightarrow>
   crop_ct c = getitem image_volume (crop_ranges c) \<and>
   crop_seg c = getitem labels_volume (crop_ranges c) \<and>
   location_string c = location_string_of (crop_ranges c)"
proof (induction labels arbitrary: crops)
  case Nil
  then show ?case by simp
next
  case (Cons label labels)
  from Cons.prems(1) obtain oc rest where
    oc: "blob_crop image_volume labels_volume params cc label = Inr oc" and
    rest: "crops_loop image_volume labels_volume params cc labels = Inr rest" and
    crops: "crops = (case oc of None \<Rightarrow> rest | Some x \<Rightarrow> x # rest)"
    by (auto split: sum.splits)
  show ?case
  proof (cases "c \<in> set rest")
    case True
    then show ?thesis using Cons.IH[OF rest] by simp
  next
    case False
    then have "oc = Some c" using crops Cons.prems(2) by (auto split: option.splits)
    then show ?thesis using oc
      by (auto simp: blob_crop_def Let_def split: if_splits sum.splits)
  qed
qed

lemma all_blobs_fields:
  assumes "all_blobs cfg ct seg = Inr blobs" "b \<in> set blobs" "shape ct = shape seg"
  shows "crop_ct b = getitem ct (crop_ranges b) \<or> (crop_ct b = ct \<and> crop_ranges b = full_ranges (shape seg))"
    and "shape (crop_ct b) = getitem_shape (shape seg) (crop_ranges b)"
proof -
  show a: "crop_ct b = getitem ct (crop_ranges b) \<or> (crop_ct b = ct \<and> crop_ranges b = full_ranges (shape seg))"
  proof (cases "crop_params cfg")
    case None
    then show ?thesis using assms by (auto simp: all_blobs_def)
  next
    case (Some p)
    then show ?thesis using assms(1,2) crops_loop_fields[of ct seg p _ _ blobs b]
      by (auto simp: all_blobs_def crop_to_boxes_of_interset_cc_def Let_def)
  qed
  then show "shape (crop_ct b) = getitem_shape (shape seg) (crop_ranges b)"
    using assms(3) by auto
qed

lemma blobs_loop_saved:
  assumes step: "\<And>i b seg seg' s. b \<in> set blobs \<Longrightarrow> I seg \<Longrightarrow>
             process_blob ext cfg dir f i b seg = Inr (seg', Some s) \<Longrightarrow> P b s"
    and inv: "\<And>i b seg seg' s. b \<in> set blobs \<Longrightarrow> I seg \<Longrightarrow>
             process_blob ext cfg dir f i b seg = Inr (seg', s) \<Longrightarrow> I seg'"
    and init: "I seg0"
    and mem: "s \<in> set (fst (blobs_loop ext cfg dir f i0 blobs seg0))"
  shows "\<exists>b \<in> set blobs. P b s"
  using assms
proof (induction blobs arbitrary: i0 seg0)
  case Nil
  then show ?case by simp
next
  case (Cons b bs)
  show ?case
  proof (cases "process_blob ext cfg dir f i0 b seg0")
    case (Inl e)
    then show ?thesis using Cons.prems(4) by simp
  next
    case (Inr p)
    obtain seg' os where p: "p = (seg', os)" by (cases p)
    have I': "I seg'" using Cons.prems(2)[of b seg0 i0 seg' os] Cons.prems(3) Inr p by simp
    from Cons.prems(4) Inr p
    have "s \<in> set (fst (blobs_loop ext cfg dir f (Suc i0) bs seg')) \<or> os = Some s"
      by (auto split: prod.splits option.splits)
    then show ?thesis
    proof
      assume "s \<in> set (fst (blobs_loop ext cfg dir f (Suc i0) bs seg'))"
      then have "\<exists>b \<in> set bs. P b s"
      proof (rule Cons.IH[rotated 3])
        show "\<And>i b seg seg' s. b \<in> set bs \<Longrightarrow> I seg \<Longrightarrow>
               process_blob ext cfg dir f i b seg = Inr (seg', Some s) \<Longrightarrow> P b s"
          by (rule Cons.prems(1)) auto
        show "\<And>i b seg seg' s. b \<in> set bs \<Longrightarrow> I seg \<Longrightarrow>
               process_blob ext cfg dir f i b seg = Inr (seg', s) \<Longrightarrow> I seg'"
          by (rule Cons.prems(2)) auto
        show "I seg'" by (rule I')
      qed
      then show ?thesis by auto
    next
      assume "os = Some s"
      then have "P b s" using Cons.prems(1)[of b seg0 i0 seg' s] Cons.prems(3) Inr p by simp
      then show ?thesis by auto
    qed
  qed
qed

lemma files_loop_saved:
  assumes "\<And>f s. f \<in> set files \<Longrightarrow> s \<in> set (fst (process_file ext cfg dir f)) \<Longrightarrow> P f s"
    and "s \<in> set (fst (files_loop ext cfg dir files))"
  shows "\<exists>f \<in> set files. P f s"
  using assms
proof (induction files)
  case Nil
  then show ?case by simp
next
  case (Cons f fs)
  from Cons.prems(2)
  have "s \<in> set (fst (process_file ext cfg dir f)) \<or> s \<in> set (fst (files_loop ext cfg dir fs))"
    by (auto split: prod.splits option.splits)
  then show ?case using Cons.IH Cons.prems(1) by auto
qed

lemma too_small_iff:
  "too_small s m \<longleftrightarrow>
   (case (s, m) of ((d, h, w), (m0, m1, m2)) \<Rightarrow> int d < m0 \<or> int h < m1 \<or> int w < m2)"
  by (cases s; cases m) auto

lemma process_blob_gate:
  assumes "process_blob ext cfg dir f i b seg = Inr (seg', Some s)"
    and "shape (crop_ct b) = getitem_shape (shape seg) (crop_ranges b)"
  shows "shape (ct_saved s) = shape (seg_saved s) \<and> \<not> too_small (shape (ct_saved s)) (min_sizes cfg)"
proof -
  let ?seg1 = "if remove_liver_label cfg then remove_liver seg (crop_ranges b) else seg"
  from assms(1) obtain ct_a seg_a where
    r: "resample ext cfg (ct_spacing_z f) (crop_ct b) (getitem ?seg1 (crop_ranges b)) = Inr (ct_a, seg_a)"
    and g: "\<not> too_small (shape ct_a) (min_sizes cfg)"
    and s: "ct_saved s = ct_a" "seg_saved s = seg_a"
    by (auto simp: process_blob_def Let_def split: sum.splits if_splits)
  have "shape (crop_ct b) = shape (getitem ?seg1 (crop_ranges b))"
    using assms(2) by simp
  from resample_shapes[OF r this] g s show ?thesis by simp
qed

lemma process_blob_shape:
  "process_blob ext cfg dir f i b seg = Inr (seg', s) \<Longrightarrow> shape seg' = shape seg"
  by (auto simp: process_blob_def Let_def split: sum.splits if_splits)

lemma process_file_gate:
  assumes "s \<in> set (fst (process_file ext cfg dir f))"
  shows "shape (ct_saved s) = shape (seg_saved s) \<and> \<not> too_small (shape (ct_saved s)) (min_sizes cfg)"
proof -
  let ?ct = "np_clip (ct_array f) IMG_MIN_VAL IMG_MAX_VAL"
  from assms have sh: "shape (seg_array f) = shape (ct_array f)"
    by (auto simp: process_file_def split: if_splits)
  from assms sh obtain blobs where
    blobs: "all_blobs cfg ?ct (seg_array f) = Inr blobs" and
    mem: "s \<in> set (fst (blobs_loop ext cfg dir f 0 blobs (seg_array f)))"
    by (auto simp: process_file_def Let_def split: sum.splits)
  have "\<exists>b \<in> set blobs. shape (ct_saved s) = shape (seg_saved s) \<and>
          \<not> too_small (shape (ct_saved s)) (min_sizes cfg)"
  proof (rule blobs_loop_saved[where I = "\<lambda>seg. shape seg = shape (seg_array f)", OF _ _ _ mem])
    fix i b seg seg' s
    assume b: "b \<in> set blobs" and i: "shape seg = shape (seg_array f)"
      and p: "process_blob ext cfg dir f i b seg = Inr (seg', Some s)"
    have "shape (crop_ct b) = getitem_shape (shape seg) (crop_ranges b)"
      using all_blobs_fields(2)[OF blobs b] sh i by simp
    from process_blob_gate[OF p this]
    show "shape (ct_saved s) = shape (seg_saved s) \<and> \<not> too_small (shape (ct_saved s)) (min_sizes cfg)" .
  next
    fix i b seg seg' s
    assume "shape seg = shape (seg_array f)" "process_blob ext cfg dir f i b seg = Inr (seg', s)"
    then show "shape seg' = shape (seg_array f)" using process_blob_shape by metis
  qed simp
  then show ?thesis by blast
qed

text \<open>
  Line 152 clips the CT array before it is cropped, and nothing clips after the zoom of
  line 170: every saved CT array is a crop of the clipped array, or what the zoom of order 3
  returns for such a crop.
\<close>

lemma getitem_full: "getitem a (full_ranges (shape a)) = a"
proof -
  obtain d h w where s: "shape a = (d, h, w)" by (cases "shape a")
  have "offset (0, 0, 0) v = v" for v :: idx by (cases v) simp
  then show ?thesis by (simp add: getitem_def s slice_start_def slice_len_def)
qed

lemma clipped_crop_within_range:
  "IMG_MIN_VAL \<le> data (getitem (np_clip a IMG_MIN_VAL IMG_MAX_VAL) r) v \<and>
   data (getitem (np_clip a IMG_MIN_VAL IMG_MAX_VAL) r) v \<le> IMG_MAX_VAL"
  by (simp add: getitem_def np_clip_def IMG_MIN_VAL_def IMG_MAX_VAL_def)

lemma process_file_saved_ct:
  assumes "s \<in> set (fst (process_file ext cfg dir f))"
  shows "\<exists>r. ct_saved s =
           (if resampling cfg
            then zoom_order3 ext (new_dims cfg (ct_spacing_z f))
                   (getitem (np_clip (ct_array f) IMG_MIN_VAL IMG_MAX_VAL) r)
            else getitem (np_clip (ct_array f) IMG_MIN_VAL IMG_MAX_VAL) r)"
proof -
  let ?ct = "np_clip (ct_array f) IMG_MIN_VAL IMG_MAX_VAL"
  from assms have sh: "shape (seg_array f) = shape (ct_array f)"
    by (auto simp: process_file_def split: if_splits)
  from assms sh obtain blobs where
    blobs: "all_blobs cfg ?ct (seg_array f) = Inr blobs" and
    mem: "s \<in> set (fst (blobs_loop ext cfg dir f 0 blobs (seg_array f)))"
    by (auto simp: process_file_def Let_def split: sum.splits)
  have "\<exists>b \<in> set blobs. ct_saved s =
          (if resampling cfg then zoom_order3 ext (new_dims cfg (ct_spacing_z f)) (crop_ct b)
           else crop_ct b)"
  proof (rule blobs_loop_saved[where I = "\<lambda>seg. True", OF _ _ _ mem])
    fix i b seg seg' s
    assume "process_blob ext cfg dir f i b seg = Inr (seg', Some s)"
    then show "ct_saved s =
          (if resampling cfg then zoom_order3 ext (new_dims cfg (ct_spacing_z f)) (crop_ct b)
           else crop_ct b)"
      by (auto simp: process_blob_def resample_def Let_def split: sum.splits if_splits)
  qed simp_all
  then obtain b where b: "b \<in> set blobs"
    "ct_saved s = (if resampling cfg then zoom_order3 ext (new_dims cfg (ct_spacing_z f)) (crop_ct b)
                   else crop_ct b)" by blast
  have shc: "shape ?ct = shape (seg_array f)" using sh by simp
  from all_blobs_fields(1)[OF blobs b(1) shc]
  have "crop_ct b = getitem ?ct (crop_ranges b) \<or> crop_ct b = getitem ?ct (full_ranges (shape ?ct))"
    by (auto simp only: getitem_full)
  then obtain r where "crop_ct b = getitem ?ct r" by blast
  with b(2) show ?thesis by (intro exI[of _ r]) simp
qed

section \<open>Lemmas about strings and paths\<close>

lemma replace_str_absent: "\<not> sublist old s \<Longrightarrow> replace_str old new s = s"
proof (induction s)
  case Nil
  then show ?case by simp
next
  case (Cons c cs)
  have "\<not> prefix old (c # cs)" using Cons.prems by auto
  moreover have "\<not> sublist old cs" using Cons.prems by (auto simp: sublist_Cons_right)
  ultimately show ?case using Cons.IH by simp
qed

lemma not_sublist_append_hd:
  assumes "\<not> sublist xs m" "\<not> sublist xs b" "b = [] \<or> hd b \<notin> set xs"
  shows "\<not> sublist xs (m @ b)"
proof
  assume "sublist xs (m @ b)"
  then obtain xs1 xs2 where x: "xs = xs1 @ xs2" "suffix xs1 m" "prefix xs2 b"
    using assms(1,2) by (auto simp: sublist_append)
  show False
  proof (cases xs2)
    case Nil
    then show ?thesis using x assms(1) by auto
  next
    case (Cons y ys)
    then have "b \<noteq> []" "hd b = y" using x(3) by (auto simp: prefix_def)
    moreover have "y \<in> set xs" using x(1) Cons by simp
    ultimately show ?thesis using assms(3) by auto
  qed
qed

lemma not_sublist_append_last:
  assumes "\<not> sublist xs a" "\<not> sublist xs m" "a = [] \<or> last a \<notin> set xs"
  shows "\<not> sublist xs (a @ m)"
proof
  assume "sublist xs (a @ m)"
  then obtain xs1 xs2 where x: "xs = xs1 @ xs2" "suffix xs1 a" "prefix xs2 m"
    using assms(1,2) by (auto simp: sublist_append)
  show False
  proof (cases "xs1 = []")
    case True
    then show ?thesis using x assms(2) by auto
  next
    case False
    then have "a \<noteq> []" "last a = last xs1" using x(2) by (auto simp: suffix_def)
    moreover have "last xs1 \<in> set xs" using x(1) False by simp
    ultimately show ?thesis using assms(3) by auto
  qed
qed

lemma str_nat_digits: "set (str_nat n) \<subseteq> set ''0123456789''"
proof (induction n rule: str_nat.induct)
  case (1 n)
  have d: "k < 10 \<Longrightarrow> digit_char k \<in> set ''0123456789''" for k
    unfolding digit_char_def by (rule nth_mem) simp
  show ?case
  proof (cases "n < 10")
    case True
    then show ?thesis using d[of n] by (subst str_nat.simps) simp
  next
    case False
    then have "set (str_nat (n div 10)) \<subseteq> set ''0123456789''" using 1 by simp
    moreover have "digit_char (n mod 10) \<in> set ''0123456789''" by (rule d) simp
    ultimately show ?thesis using False by (subst str_nat.simps) simp
  qed
qed

lemma str_nat_no_o [simp]: "CHR ''o'' \<notin> set (str_nat n)"
  using str_nat_digits[of n] by auto

lemma str_int_no_o [simp]: "CHR ''o'' \<notin> set (str_int i)"
  by (simp add: str_int_def)

lemma location_string_no_o [simp]: "CHR ''o'' \<notin> set (location_string_of r)"
  by (cases r) simp

lemma processed_dir_no_o:
  assumes "\<forall>r. CHR ''o'' \<notin> set (str_float ext r)"
  shows "CHR ''o'' \<notin> set (processed_dir ext cfg)"
  using assms
  by (auto simp: processed_dir_def str_cropping_params_def str_bool_def
           split: prod.splits option.splits)

lemma no_o_no_volume: "CHR ''o'' \<notin> set s \<Longrightarrow> \<not> sublist ''volume'' s"
  using set_mono_sublist[of "''volume''" s] by auto

lemma process_file_paths:
  assumes "s \<in> set (fst (process_file ext cfg dir f))"
  shows "\<exists>i loc. (loc = [] \<or> (\<exists>r. loc = location_string_of r)) \<and>
           ct_path s = path_join dir (crop_fname (ct_filename f) loc i) \<and>
           seg_path s = replace_str ''volume'' ''segmentation'' (ct_path s)"
proof -
  let ?ct = "np_clip (ct_array f) IMG_MIN_VAL IMG_MAX_VAL"
  from assms have sh: "shape (seg_array f) = shape (ct_array f)"
    by (auto simp: process_file_def split: if_splits)
  from assms sh obtain blobs where
    blobs: "all_blobs cfg ?ct (seg_array f) = Inr blobs" and
    mem: "s \<in> set (fst (blobs_loop ext cfg dir f 0 blobs (seg_array f)))"
    by (auto simp: process_file_def Let_def split: sum.splits)
  have loc: "location_string b = [] \<or> (\<exists>r. location_string b = location_string_of r)"
    if "b \<in> set blobs" for b
  proof (cases "crop_params cfg")
    case None
    then show ?thesis using blobs that by (auto simp: all_blobs_def)
  next
    case (Some p)
    with blobs have "crops_loop ?ct (seg_array f) p
        (connected_components (eq_scalar (seg_array f) (cropping_lable p)))
        (each (connected_components (eq_scalar (seg_array f) (cropping_lable p)))) = Inr blobs"
      by (simp add: all_blobs_def crop_to_boxes_of_interset_cc_def Let_def)
    from crops_loop_fields[OF this that] show ?thesis by blast
  qed
  have "\<exists>b \<in> set blobs. \<exists>i. ct_path s = path_join dir (crop_fname (ct_filename f) (location_string b) i) \<and>
           seg_path s = replace_str ''volume'' ''segmentation'' (ct_path s)"
  proof (rule blobs_loop_saved[where I = "\<lambda>seg. True", OF _ _ _ mem])
    fix i b seg seg' s
    assume "process_blob ext cfg dir f i b seg = Inr (seg', Some s)"
    then have "ct_path s = path_join dir (crop_fname (ct_filename f) (location_string b) i) \<and>
           seg_path s = replace_str ''volume'' ''segmentation'' (ct_path s)"
      by (auto simp: process_blob_def Let_def split: sum.splits if_splits)
    then show "\<exists>i. ct_path s = path_join dir (crop_fname (ct_filename f) (location_string b) i) \<and>
           seg_path s = replace_str ''volume'' ''segmentation'' (ct_path s)" by blast
  qed simp_all
  then show ?thesis using loc by blast
qed

section \<open>Lemmas about the label remap\<close>

lemma in_view_offset:
  "in_bounds (getitem_shape s r) w \<Longrightarrow> in_view s r (offset (getitem_origin s r) w)"
  by (cases s; cases r; cases w) auto

lemma data_remove_liver:
  "data (remove_liver seg r) v =
     (if in_view (shape seg) r v
      then (if data seg v = 1 then 0 else if data seg v = 2 then 1 else data seg v)
      else data seg v)"
  by (simp add: remove_liver_def assign_where_def)

lemma remapped_from_remove_liver:
  "remapped_from orig seg \<Longrightarrow> remapped_from orig (remove_liver seg r)"
  unfolding remapped_from_def
proof (intro conjI allI)
  assume a: "shape seg = shape orig \<and>
     (\<forall>v. data seg v = data orig v \<or> (data orig v = 1 \<and> data seg v = 0) \<or>
          (data orig v = 2 \<and> (data seg v = 1 \<or> data seg v = 0)))"
  then show "shape (remove_liver seg r) = shape orig" by (simp add: remove_liver_def assign_where_def)
  fix v
  from a have "data seg v = data orig v \<or> (data orig v = 1 \<and> data seg v = 0) \<or>
          (data orig v = 2 \<and> (data seg v = 1 \<or> data seg v = 0))" by blast
  then show "data (remove_liver seg r) v = data orig v \<or>
         (data orig v = 1 \<and> data (remove_liver seg r) v = 0) \<or>
         (data orig v = 2 \<and> (data (remove_liver seg r) v = 1 \<or> data (remove_liver seg r) v = 0))"
    unfolding data_remove_liver by auto
qed

lemma process_blob_remap:
  assumes rl: "remove_liver_label cfg"
    and nn: "\<forall>nd s v. in_bounds (zoom_shape nd s) v \<longrightarrow> in_bounds s (nearest_index ext nd s v)"
    and inv: "remapped_from (seg_array f) seg"
    and p: "process_blob ext cfg dir f i b seg = Inr (seg', Some s)"
    and v: "in_bounds (shape (seg_saved s)) v"
  shows "(data (seg_saved s) v = 1 \<longrightarrow> data (seg_array f) (source_index ext cfg f b v) = 2) \<and>
         (data (seg_array f) (source_index ext cfg f b v) = 1 \<longrightarrow> data (seg_saved s) v \<noteq> 1)"
proof -
  let ?r = "crop_ranges b"
  let ?seg1 = "remove_liver seg ?r"
  let ?view = "getitem ?seg1 ?r"
  let ?nd = "new_dims cfg (ct_spacing_z f)"
  let ?w = "if resampling cfg
            then nearest_index ext ?nd (getitem_shape (shape (seg_array f)) ?r) v else v"
  let ?u = "source_index ext cfg f b v"
  have sh: "shape seg = shape (seg_array f)" using inv by (simp add: remapped_from_def)
  have shv: "shape ?view = getitem_shape (shape (seg_array f)) ?r"
    by (simp add: getitem_def remove_liver_def assign_where_def sh)
  from p rl obtain ct_a where
    r: "resample ext cfg (ct_spacing_z f) (crop_ct b) ?view = Inr (ct_a, seg_saved s)"
    by (auto simp: process_blob_def Let_def split: sum.splits if_splits)
  have w: "in_bounds (shape ?view) ?w \<and> data (seg_saved s) v = data ?view ?w"
  proof (cases "resampling cfg")
    case True
    with r have z: "seg_saved s = zoom_order0 ext ?nd ?view"
      by (auto simp: resample_def Let_def split: if_splits)
    then have "in_bounds (zoom_shape ?nd (shape ?view)) v" using v by (simp add: zoom_order0_def)
    then have "in_bounds (shape ?view) (nearest_index ext ?nd (shape ?view) v)" using nn by blast
    then show ?thesis using True z by (simp add: zoom_order0_def sh)
  next
    case False
    with r have "seg_saved s = ?view" by (auto simp: resample_def)
    then show ?thesis using False v by simp
  qed
  have u: "?u = offset (getitem_origin (shape seg) ?r) ?w"
    by (simp add: source_index_def sh)
  have "in_view (shape seg) ?r ?u"
    unfolding u using w shv sh by (intro in_view_offset) simp
  then have d: "data ?seg1 ?u =
      (if data seg ?u = 1 then 0 else if data seg ?u = 2 then 1 else data seg ?u)"
    by (simp add: data_remove_liver)
  have e: "data (seg_saved s) v = data ?seg1 ?u"
    using w by (simp add: getitem_def u remove_liver_def assign_where_def)
  from inv have "data seg ?u = data (seg_array f) ?u \<or>
      (data (seg_array f) ?u = 1 \<and> data seg ?u = 0) \<or>
      (data (seg_array f) ?u = 2 \<and> (data seg ?u = 1 \<or> data seg ?u = 0))"
    unfolding remapped_from_def by blast
  then show ?thesis unfolding e d by auto
qed

lemma process_blob_remapped:
  assumes "remapped_from orig seg" "process_blob ext cfg dir f i b seg = Inr (seg', s)"
  shows "remapped_from orig seg'"
proof -
  from assms(2) have "seg' = (if remove_liver_label cfg then remove_liver seg (crop_ranges b) else seg)"
    by (auto simp: process_blob_def Let_def split: sum.splits if_splits)
  then show ?thesis using assms(1) remapped_from_remove_liver by auto
qed

lemma py_round_0: "py_round 0 = 0"
  by (simp add: py_round_def)

lemma example_ext_nearest:
  "\<forall>nd s v. in_bounds (zoom_shape nd s) v \<longrightarrow> in_bounds s (nearest_index example_ext nd s v)"
proof (intro allI impI)
  fix nd :: "rat \<times> rat \<times> rat" and s v :: "nat \<times> nat \<times> nat"
  assume a: "in_bounds (zoom_shape nd s) v"
  obtain fz fy fx where nd: "nd = (fz, fy, fx)" by (cases nd)
  obtain d h w where s: "s = (d, h, w)" by (cases s)
  obtain z y x where v: "v = (z, y, x)" by (cases v)
  have zero: "n = 0 \<Longrightarrow> zoom_length n r = 0" for n r
    by (simp add: zoom_length_def py_round_0)
  have b: "z < zoom_length d fz" "y < zoom_length h fy" "x < zoom_length w fx"
    using a unfolding nd s v by simp_all
  have "d \<noteq> 0" using b(1) zero[of d fz] by (cases "d = 0") simp_all
  moreover have "h \<noteq> 0" using b(2) zero[of h fy] by (cases "h = 0") simp_all
  moreover have "w \<noteq> 0" using b(3) zero[of w fx] by (cases "w = 0") simp_all
  ultimately have "d \<noteq> 0" "h \<noteq> 0" "w \<noteq> 0" by simp_all
  then show "in_bounds s (nearest_index example_ext nd s v)"
    unfolding s v by (simp add: example_ext_def) linarith
qed

text \<open>
  Whatever the blobs ahead of it did to the label array of the volume: in a label array
  saved with \<open>remove_liver_label\<close> a voxel is 1 only where the voxel of the source label
  array it shows was 2, and where that source voxel was 1 the saved voxel is not 1. A source
  voxel that was 2 need not be saved as 1: \<open>remapped_from\<close> leaves it 1 or 0.
\<close>

lemma saved_ones_come_from_twos:
  assumes "remove_liver_label cfg"
    and "\<forall>nd s v. in_bounds (zoom_shape nd s) v \<longrightarrow> in_bounds s (nearest_index ext nd s v)"
    and "s \<in> set (fst (process_file ext cfg dir f))"
  shows "\<exists>blobs b.
           all_blobs cfg (np_clip (ct_array f) IMG_MIN_VAL IMG_MAX_VAL) (seg_array f) = Inr blobs \<and>
           b \<in> set blobs \<and>
           (\<forall>v. in_bounds (shape (seg_saved s)) v \<longrightarrow>
              (data (seg_saved s) v = 1 \<longrightarrow>
                 data (seg_array f) (source_index ext cfg f b v) = 2) \<and>
              (data (seg_array f) (source_index ext cfg f b v) = 1 \<longrightarrow>
                 data (seg_saved s) v \<noteq> 1))"
proof -
  let ?ct = "np_clip (ct_array f) IMG_MIN_VAL IMG_MAX_VAL"
  from assms(3) have sh: "shape (seg_array f) = shape (ct_array f)"
    by (auto simp: process_file_def split: if_splits)
  from assms(3) sh obtain blobs where
    blobs: "all_blobs cfg ?ct (seg_array f) = Inr blobs" and
    mem: "s \<in> set (fst (blobs_loop ext cfg dir f 0 blobs (seg_array f)))"
    by (auto simp: process_file_def Let_def split: sum.splits)
  have "\<exists>b \<in> set blobs. \<forall>v. in_bounds (shape (seg_saved s)) v \<longrightarrow>
              (data (seg_saved s) v = 1 \<longrightarrow>
                 data (seg_array f) (source_index ext cfg f b v) = 2) \<and>
              (data (seg_array f) (source_index ext cfg f b v) = 1 \<longrightarrow>
                 data (seg_saved s) v \<noteq> 1)"
  proof (rule blobs_loop_saved[where I = "remapped_from (seg_array f)", OF _ _ _ mem])
    fix i b seg seg' s
    assume "remapped_from (seg_array f) seg" "process_blob ext cfg dir f i b seg = Inr (seg', Some s)"
    then show "\<forall>v. in_bounds (shape (seg_saved s)) v \<longrightarrow>
              (data (seg_saved s) v = 1 \<longrightarrow>
                 data (seg_array f) (source_index ext cfg f b v) = 2) \<and>
              (data (seg_array f) (source_index ext cfg f b v) = 1 \<longrightarrow>
                 data (seg_saved s) v \<noteq> 1)"
      using process_blob_remap[OF assms(1,2)] by blast
  next
    fix i b seg seg' s
    assume "remapped_from (seg_array f) seg" "process_blob ext cfg dir f i b seg = Inr (seg', s)"
    then show "remapped_from (seg_array f) seg'" by (rule process_blob_remapped)
  next
    show "remapped_from (seg_array f) (seg_array f)" by (simp add: remapped_from_def)
  qed
  then show ?thesis using blobs by blast
qed

section \<open>Lemmas about connected components\<close>

lemma lookup_mem:
  "distinct (map fst L) \<Longrightarrow> (v, k) \<in> set L \<Longrightarrow> lookup L v = k"
  by (simp add: lookup_def)

lemma lookup_absent: "v \<notin> fst ` set L \<Longrightarrow> lookup L v = 0"
  by (simp add: lookup_def map_of_eq_None_iff[THEN iffD2])

lemma lookup_in_set:
  "v \<in> fst ` set L \<Longrightarrow> (v, lookup L v) \<in> set L"
proof -
  assume "v \<in> fst ` set L"
  then obtain k where "map_of L v = Some k"
    by (metis map_of_eq_None_iff not_None_eq)
  then show ?thesis by (simp add: lookup_def map_of_SomeD)
qed

lemma map_fst_relabel [simp]: "map fst (relabel L) = map fst L"
  by (induction L) (auto simp: relabel_def)

lemma map_fst_propagate [simp]: "map fst (propagate L) = map fst L"
proof (induction L rule: propagate.induct)
  case (1 L)
  then show ?case by (subst propagate.simps) simp
qed

lemma relabel_propagate: "relabel (propagate L) = propagate L"
proof (induction L rule: propagate.induct)
  case (1 L)
  then show ?case by (subst (1 2) propagate.simps) simp
qed

lemma min_label_zero [simp]: "min_label L v k = 0 \<longleftrightarrow> k = 0"
proof (cases "k = 0")
  case True
  then show ?thesis by (simp add: min_label_def)
next
  case False
  let ?S = "set (k # filter (\<lambda>j. j \<noteq> 0) (map (lookup L) (neighbours26 v)))"
  have "Min ?S \<in> ?S" by (rule Min_in) simp_all
  then have "Min ?S \<noteq> 0" using False by auto
  then show ?thesis using False by (simp add: min_label_def)
qed

lemma relabel_mem:
  "(v, k') \<in> set (relabel L) \<longleftrightarrow> (\<exists>k. (v, k) \<in> set L \<and> k' = min_label L v k)"
  by (auto simp: relabel_def)

lemma labels_inv_relabel:
  assumes "labels_inv binary L"
  shows "labels_inv binary (relabel L)"
proof -
  have a: "(k = 0) = (\<not> data binary v)" if "(v, k) \<in> set L" for v k
    using assms that unfolding labels_inv_def by blast
  have "(k' = 0) = (\<not> data binary v)" if "(v, k') \<in> set (relabel L)" for v k'
  proof -
    from that obtain k where "(v, k) \<in> set L" "k' = min_label L v k"
      unfolding relabel_mem by blast
    then show ?thesis using a[of v k] by simp
  qed
  moreover have "map fst (relabel L) = indices (shape binary)"
    using assms by (simp add: labels_inv_def)
  ultimately show ?thesis unfolding labels_inv_def by blast
qed

lemma labels_inv_propagate: "labels_inv binary L \<Longrightarrow> labels_inv binary (propagate L)"
proof (induction L rule: propagate.induct)
  case (1 L)
  show ?case
  proof (cases "relabel L = L")
    case True
    then show ?thesis using 1 by (subst propagate.simps) simp
  next
    case False
    then show ?thesis using 1 labels_inv_relabel by (subst propagate.simps) simp
  qed
qed

lemma labels_inv_init: "labels_inv binary (init_labels binary)"
proof -
  have "map fst (init_labels binary) = map snd (enumerate 0 (indices (shape binary)))"
    unfolding init_labels_def by (simp add: case_prod_unfold comp_def)
  then have "map fst (init_labels binary) = indices (shape binary)" by simp
  then show ?thesis by (auto simp: labels_inv_def init_labels_def)
qed

lemma labels_inv_lookup:
  assumes "labels_inv binary L"
  shows "lookup L v = 0 \<longleftrightarrow> \<not> (in_bounds (shape binary) v \<and> data binary v)"
proof (cases "in_bounds (shape binary) v")
  case True
  then have "v \<in> fst ` set L" using assms
    by (metis labels_inv_def list.set_map mem_Collect_eq set_indices)
  then have "(v, lookup L v) \<in> set L" by (rule lookup_in_set)
  then show ?thesis using assms True by (auto simp: labels_inv_def)
next
  case False
  then have "v \<notin> fst ` set L" using assms
    by (metis labels_inv_def list.set_map mem_Collect_eq set_indices)
  then show ?thesis using False by (simp add: lookup_absent)
qed

lemma neighbours26_iff:
  "u \<in> set (neighbours26 v) \<longleftrightarrow>
   u \<noteq> v \<and> axis0 v - 1 \<le> axis0 u \<and> axis0 u \<le> axis0 v + 1 \<and>
   axis1 v - 1 \<le> axis1 u \<and> axis1 u \<le> axis1 v + 1 \<and>
   axis2 v - 1 \<le> axis2 u \<and> axis2 u \<le> axis2 v + 1"
  by (cases u; cases v) (auto simp: neighbours26_def)

lemma neighbours26_sym: "u \<in> set (neighbours26 v) \<Longrightarrow> v \<in> set (neighbours26 u)"
  unfolding neighbours26_iff by auto

lemma fixpoint_le:
  assumes fp: "relabel L = L" and d: "distinct (map fst L)"
    and v: "v \<in> fst ` set L" and nz: "lookup L v \<noteq> 0"
    and u: "u \<in> set (neighbours26 v)" and nzu: "lookup L u \<noteq> 0"
  shows "lookup L v \<le> lookup L u"
proof -
  let ?k = "lookup L v"
  let ?S = "set (?k # filter (\<lambda>j. j \<noteq> 0) (map (lookup L) (neighbours26 v)))"
  have m: "(v, ?k) \<in> set L" using v by (rule lookup_in_set)
  then have "(v, min_label L v ?k) \<in> set (relabel L)" unfolding relabel_mem by blast
  then have "(v, min_label L v ?k) \<in> set L" using fp by simp
  then have "min_label L v ?k = ?k" using d m by (metis lookup_mem)
  then have "Min ?S = ?k" using nz by (simp add: min_label_def)
  moreover have "lookup L u \<in> ?S" using u nzu by auto
  then have "Min ?S \<le> lookup L u" by (intro Min_le) simp_all
  ultimately show ?thesis by simp
qed

lemma fixpoint_adjacent:
  assumes "relabel L = L" "distinct (map fst L)"
    and "v \<in> fst ` set L" "u \<in> fst ` set L"
    and "lookup L v \<noteq> 0" "lookup L u \<noteq> 0" "u \<in> set (neighbours26 v)"
  shows "lookup L v = lookup L u"
  using fixpoint_le[OF assms(1,2,3,5,7,6)]
    fixpoint_le[OF assms(1,2,4,6) neighbours26_sym[OF assms(7)] assms(5)]
  by simp

lemma shape_connected_components [simp]:
  "shape (connected_components binary) = shape binary"
  by (simp add: connected_components_def Let_def)

lemma data_connected_components:
  "data (connected_components binary) v =
     (let L = propagate (init_labels binary) in
      if lookup L v = 0 then 0
      else rank (remdups (filter (\<lambda>k. k \<noteq> 0) (map snd L))) (lookup L v))"
  by (simp add: connected_components_def Let_def)

lemma rank_pos [simp]: "rank ks k \<noteq> 0"
  by (simp add: rank_def)

lemma cc_zero_iff:
  "data (connected_components binary) v = 0 \<longleftrightarrow> \<not> (in_bounds (shape binary) v \<and> data binary v)"
  using labels_inv_lookup[OF labels_inv_propagate[OF labels_inv_init], of binary v]
  by (simp add: data_connected_components Let_def)

lemma cc_adjacent:
  assumes "in_bounds (shape binary) v" "data binary v"
    and "in_bounds (shape binary) u" "data binary u"
    and "u \<in> set (neighbours26 v)"
  shows "data (connected_components binary) v = data (connected_components binary) u"
proof -
  let ?L = "propagate (init_labels binary)"
  have inv: "labels_inv binary ?L" by (rule labels_inv_propagate[OF labels_inv_init])
  then have keys: "map fst ?L = indices (shape binary)" by (simp add: labels_inv_def)
  have d: "distinct (map fst ?L)" unfolding keys by (rule distinct_indices)
  have mem: "w \<in> fst ` set ?L" if "in_bounds (shape binary) w" for w
    using that keys by (metis list.set_map mem_Collect_eq set_indices)
  have nz: "lookup ?L w \<noteq> 0" if "in_bounds (shape binary) w" "data binary w" for w
    using labels_inv_lookup[OF inv, of w] that by simp
  have "lookup ?L v = lookup ?L u"
    by (rule fixpoint_adjacent[OF relabel_propagate d mem[OF assms(1)] mem[OF assms(3)]
          nz[OF assms(1,2)] nz[OF assms(3,4)] assms(5)])
  then show ?thesis by (simp add: data_connected_components Let_def)
qed

lemma sym_mask_adjacent: "sym (mask_adjacent binary)"
  by (auto simp: sym_def mask_adjacent_def neighbours26_sym)

lemma init_labels_inj:
  assumes "(u, k) \<in> set (init_labels binary)" "(v, k) \<in> set (init_labels binary)" "k \<noteq> 0"
  shows "u = v"
proof -
  let ?xs = "indices (shape binary)"
  from assms(1) obtain i where i: "(i, u) \<in> set (enumerate 0 ?xs)"
    "k = (if data binary u then Suc i else 0)"
    by (auto simp: init_labels_def)
  from assms(2) obtain j where j: "(j, v) \<in> set (enumerate 0 ?xs)"
    "k = (if data binary v then Suc j else 0)"
    by (auto simp: init_labels_def)
  have "i = j" using i(2) j(2) assms(3) by (auto split: if_splits)
  then show ?thesis using i(1) j(1) by (auto simp: in_set_enumerate_eq)
qed

lemma labels_reach_init: "labels_reach binary (init_labels binary)"
  unfolding labels_reach_def
proof (intro allI impI)
  fix v k assume "(v, k) \<in> set (init_labels binary) \<and> k \<noteq> 0"
  then have "(v, k) \<in> set (init_labels binary)" by (rule conjunct1)
  moreover have "(v, v) \<in> (mask_adjacent binary)\<^sup>*" by (rule rtrancl.rtrancl_refl)
  ultimately show "\<exists>u. (u, k) \<in> set (init_labels binary) \<and> (u, v) \<in> (mask_adjacent binary)\<^sup>*"
    by (intro exI[of _ v] conjI)
qed

lemma min_label_cases:
  assumes "k \<noteq> 0"
  shows "min_label L v k = k \<or>
         (\<exists>n \<in> set (neighbours26 v). min_label L v k = lookup L n \<and> lookup L n \<noteq> 0)"
proof -
  let ?F = "filter (\<lambda>j. j \<noteq> 0) (map (lookup L) (neighbours26 v))"
  have m: "min_label L v k = Min (set (k # ?F))" using assms by (simp add: min_label_def)
  have "Min (set (k # ?F)) \<in> set (k # ?F)" by (rule Min_in) simp_all
  then have "min_label L v k = k \<or> min_label L v k \<in> set ?F" unfolding m by simp
  then show ?thesis
  proof
    assume "min_label L v k = k"
    then show ?thesis by (rule disjI1)
  next
    assume "min_label L v k \<in> set ?F"
    then have "min_label L v k \<in> lookup L ` set (neighbours26 v)" "min_label L v k \<noteq> 0"
      using assms by simp_all
    then obtain n where "n \<in> set (neighbours26 v)" "min_label L v k = lookup L n"
      by (elim imageE)
    then show ?thesis using \<open>min_label L v k \<noteq> 0\<close> by (intro disjI2 bexI[of _ n]) simp_all
  qed
qed

lemma labels_inv_foreground:
  assumes inv: "labels_inv binary L" and m: "(w, j) \<in> set L" and nz: "j \<noteq> 0"
  shows "in_bounds (shape binary) w" "data binary w"
proof -
  have keys: "map fst L = indices (shape binary)" using inv by (simp add: labels_inv_def)
  have "fst (w, j) \<in> fst ` set L" using m by (rule imageI)
  then have "w \<in> set (map fst L)" by simp
  then have "w \<in> set (indices (shape binary))" unfolding keys .
  then show "in_bounds (shape binary) w" by (simp add: set_indices)
  have "\<forall>p \<in> set L. case p of (v, k) \<Rightarrow> (k = 0) = (\<not> data binary v)"
    using inv by (simp add: labels_inv_def)
  from bspec[OF this m] show "data binary w" using nz by simp
qed

lemma labels_reach_relabel:
  assumes inv: "labels_inv binary L" and r: "labels_reach binary L"
  shows "labels_reach binary (relabel L)"
  unfolding labels_reach_def
proof (intro allI impI)
  fix v k' assume a: "(v, k') \<in> set (relabel L) \<and> k' \<noteq> 0"
  from a have "(v, k') \<in> set (relabel L)" by (rule conjunct1)
  then obtain k where k: "(v, k) \<in> set L" "k' = min_label L v k"
    unfolding relabel_mem by (elim exE conjE)
  have knz: "k \<noteq> 0" using a k(2) by simp
  have rr: "\<exists>u. (u, j) \<in> set (init_labels binary) \<and> (u, w) \<in> (mask_adjacent binary)\<^sup>*"
    if "(w, j) \<in> set L" "j \<noteq> 0" for w j
    using r[unfolded labels_reach_def, rule_format, of w j] that by simp
  from min_label_cases[OF knz, of L v]
  show "\<exists>u. (u, k') \<in> set (init_labels binary) \<and> (u, v) \<in> (mask_adjacent binary)\<^sup>*"
  proof
    assume "min_label L v k = k"
    then have "k' = k" using k(2) by simp
    then show ?thesis using rr[OF k(1) knz] by simp
  next
    assume "\<exists>n \<in> set (neighbours26 v). min_label L v k = lookup L n \<and> lookup L n \<noteq> 0"
    then obtain n where n: "n \<in> set (neighbours26 v)" "min_label L v k = lookup L n"
      "lookup L n \<noteq> 0" by (elim bexE conjE)
    have k'n: "k' = lookup L n" using k(2) n(2) by simp
    have "n \<in> fst ` set L"
    proof (rule ccontr)
      assume "n \<notin> fst ` set L"
      then have "lookup L n = 0" by (rule lookup_absent)
      then show False using n(3) by simp
    qed
    then have "(n, lookup L n) \<in> set L" by (rule lookup_in_set)
    then have nk: "(n, k') \<in> set L" unfolding k'n .
    have k'nz: "k' \<noteq> 0" using n(3) k'n by simp
    from rr[OF nk k'nz] obtain u where
      u: "(u, k') \<in> set (init_labels binary)" "(u, n) \<in> (mask_adjacent binary)\<^sup>*"
      by (elim exE conjE)
    have "(n, v) \<in> mask_adjacent binary"
      unfolding mask_adjacent_def
      using labels_inv_foreground[OF inv nk k'nz] labels_inv_foreground[OF inv k(1) knz]
        neighbours26_sym[OF n(1)]
      by simp
    with u(2) have "(u, v) \<in> (mask_adjacent binary)\<^sup>*"
      by (rule rtrancl.rtrancl_into_rtrancl)
    with u(1) show ?thesis by (intro exI[of _ u] conjI)
  qed
qed

lemma labels_reach_propagate:
  "labels_inv binary L \<Longrightarrow> labels_reach binary L \<Longrightarrow> labels_reach binary (propagate L)"
proof (induction L rule: propagate.induct)
  case (1 L)
  show ?case
  proof (cases "relabel L = L")
    case True
    then show ?thesis using 1 by (subst propagate.simps) simp
  next
    case False
    have "labels_inv binary (relabel L)" using 1(2) by (rule labels_inv_relabel)
    moreover have "labels_reach binary (relabel L)" using 1(2,3) by (rule labels_reach_relabel)
    ultimately have "labels_reach binary (propagate (relabel L))" using 1(1) False by blast
    then show ?thesis using False by (subst propagate.simps) simp
  qed
qed

lemma rank_inj:
  assumes "k \<in> set ks" "k' \<in> set ks" "rank ks k = rank ks k'"
  shows "k = k'"
proof (rule ccontr)
  assume ne: "k \<noteq> k'"
  have less: "length (filter (\<lambda>j. j < a) ks) < length (filter (\<lambda>j. j < b) ks)"
    if "a < b" "a \<in> set ks" for a b
  proof (rule filter_length_less)
    show "\<forall>x\<in>set ks. x < a \<longrightarrow> x < b" using that(1) by simp
    have "a < b \<and> \<not> a < a" using that(1) by simp
    then show "\<exists>x\<in>set ks. x < b \<and> \<not> x < a" using that(2) by (rule bexI)
  qed
  have eq: "length (filter (\<lambda>j. j < k) ks) = length (filter (\<lambda>j. j < k') ks)"
    using assms(3) by (simp add: rank_def)
  from ne have "k < k' \<or> k' < k" by linarith
  then show False
  proof
    assume "k < k'"
    from less[OF this assms(1)] eq show False by simp
  next
    assume "k' < k"
    from less[OF this assms(2)] eq show False by simp
  qed
qed

text \<open>
  The labels of \<open>connected_components\<close> are the components of the mask: two true voxels
  get the same label exactly when a chain of adjacent true voxels joins them.
\<close>

lemma cc_same_label_iff_connected:
  assumes u: "in_bounds (shape binary) u" "data binary u"
    and v: "in_bounds (shape binary) v" "data binary v"
  shows "data (connected_components binary) u = data (connected_components binary) v \<longleftrightarrow>
         (u, v) \<in> (mask_adjacent binary)\<^sup>*"
proof
  assume "(u, v) \<in> (mask_adjacent binary)\<^sup>*"
  then show "data (connected_components binary) u = data (connected_components binary) v"
  proof (induction rule: rtrancl_induct)
    case base
    then show ?case by simp
  next
    case (step y z)
    from step(2) have "in_bounds (shape binary) y" "data binary y" "in_bounds (shape binary) z"
      "data binary z" "z \<in> set (neighbours26 y)"
      by (simp_all add: mask_adjacent_def)
    then have "data (connected_components binary) y = data (connected_components binary) z"
      by (rule cc_adjacent)
    then show ?case using step(3) by simp
  qed
next
  let ?L = "propagate (init_labels binary)"
  let ?ks = "remdups (filter (\<lambda>k. k \<noteq> 0) (map snd ?L))"
  assume eq: "data (connected_components binary) u = data (connected_components binary) v"
  have inv: "labels_inv binary ?L" by (rule labels_inv_propagate[OF labels_inv_init])
  have reach: "labels_reach binary ?L"
    by (rule labels_reach_propagate[OF labels_inv_init labels_reach_init])
  have keys: "map fst ?L = indices (shape binary)" using inv by (simp add: labels_inv_def)
  have mem: "(w, lookup ?L w) \<in> set ?L \<and> lookup ?L w \<noteq> 0"
    if "in_bounds (shape binary) w" "data binary w" for w
  proof -
    have "w \<in> fst ` set ?L" using that(1) keys by (metis list.set_map mem_Collect_eq set_indices)
    then show ?thesis using lookup_in_set labels_inv_lookup[OF inv, of w] that by simp
  qed
  note mu = mem[OF u] and mv = mem[OF v]
  have inks: "lookup ?L u \<in> set ?ks" "lookup ?L v \<in> set ?ks"
    using mu mv by force+
  have "rank ?ks (lookup ?L u) = rank ?ks (lookup ?L v)"
    using eq mu mv by (simp add: data_connected_components Let_def)
  then have same: "lookup ?L u = lookup ?L v" using rank_inj[OF inks] by simp
  from reach[unfolded labels_reach_def, rule_format, OF mu] obtain a where
    a: "(a, lookup ?L u) \<in> set (init_labels binary)" "(a, u) \<in> (mask_adjacent binary)\<^sup>*"
    by (elim exE conjE)
  from reach[unfolded labels_reach_def, rule_format, OF mv] obtain b where
    b: "(b, lookup ?L v) \<in> set (init_labels binary)" "(b, v) \<in> (mask_adjacent binary)\<^sup>*"
    by (elim exE conjE)
  have "(b, lookup ?L u) \<in> set (init_labels binary)" using b(1) same by simp
  with a(1) have ab: "a = b" using mu by (intro init_labels_inj[of a "lookup ?L u" binary b]) simp_all
  have "(u, a) \<in> (mask_adjacent binary)\<^sup>*"
    by (rule symD[OF sym_rtrancl[OF sym_mask_adjacent] a(2)])
  moreover have "(a, v) \<in> (mask_adjacent binary)\<^sup>*" using b(2) ab by simp
  ultimately show "(u, v) \<in> (mask_adjacent binary)\<^sup>*" by (rule rtrancl_trans)
qed

section \<open>Lemmas about the cropper\<close>

lemma blob_crop_mask_dilation:
  "blob_crop image_volume labels_volume (params\<lparr>mask_dilation := n\<rparr>) cc label =
   blob_crop image_volume labels_volume params cc label"
  by (simp add: blob_crop_def Let_def cong: if_cong sum.case_cong)

lemma crops_loop_mask_dilation:
  "crops_loop image_volume labels_volume (params\<lparr>mask_dilation := n\<rparr>) cc labels =
   crops_loop image_volume labels_volume params cc labels"
  by (induction labels) (simp_all add: blob_crop_mask_dilation cong: sum.case_cong)

section \<open>Lemmas about the overlap filter\<close>

lemma sum_count_list_filter:
  "finite S \<Longrightarrow> sum (count_list xs) S = length (filter (\<lambda>x. x \<in> S) xs)"
proof (induction xs)
  case Nil
  then show ?case by simp
next
  case (Cons a xs)
  have "sum (count_list (a # xs)) S = (\<Sum>y\<in>S. count_list xs y + (if a = y then 1 else 0))"
    by (intro sum.cong) auto
  also have "\<dots> = sum (count_list xs) S + (\<Sum>y\<in>S. if a = y then 1 else 0)"
    by (simp add: sum.distrib)
  also have "(\<Sum>y\<in>S. if a = y then 1 else 0) = (if a \<in> S then 1 else (0::nat))"
    using Cons.prems by (simp add: sum.delta')
  finally show ?case using Cons by simp
qed

lemma np_delete_sum:
  assumes "\<forall>i \<in> set is. i < length cs"
  shows "np_delete cs is = Inr (map fst (filter (\<lambda>p. snd p \<notin> set is) (zip cs [0..<length cs])))"
    and "sum_list (map fst (filter (\<lambda>p. snd p \<notin> set is) (zip cs [0..<length cs]))) =
         (\<Sum>i \<in> {0..<length cs} - set is. cs ! i)"
proof -
  show "np_delete cs is = Inr (map fst (filter (\<lambda>p. snd p \<notin> set is) (zip cs [0..<length cs])))"
    using assms by (simp add: np_delete_def)
  have z: "zip cs [0..<length cs] = map (\<lambda>i. (cs ! i, i)) [0..<length cs]"
    by (rule nth_equalityI) auto
  have "map fst (filter (\<lambda>p. snd p \<notin> set is) (zip cs [0..<length cs])) =
        map (\<lambda>i. cs ! i) (filter (\<lambda>i. i \<notin> set is) [0..<length cs])"
    unfolding z by (simp add: filter_map comp_def)
  moreover have "sum_list (map (\<lambda>i. cs ! i) (filter (\<lambda>i. i \<notin> set is) [0..<length cs])) =
        sum (\<lambda>i. cs ! i) (set (filter (\<lambda>i. i \<notin> set is) [0..<length cs]))"
    by (rule sum_list_distinct_conv_sum_set) simp
  moreover have "set (filter (\<lambda>i. i \<notin> set is) [0..<length cs]) = {0..<length cs} - set is"
    by auto
  ultimately show "sum_list (map fst (filter (\<lambda>p. snd p \<notin> set is) (zip cs [0..<length cs]))) =
         (\<Sum>i \<in> {0..<length cs} - set is. cs ! i)" by simp
qed

lemma first_index_nth:
  "a \<in> set vs \<Longrightarrow>
   \<exists>i. first_index vs a = Inr i \<and> i < length vs \<and> vs ! i = a"
proof -
  assume a: "a \<in> set vs"
  let ?i = "length (takeWhile (\<lambda>x. x \<noteq> a) vs)"
  have "?i < length vs \<and> vs ! ?i = a" using a by (induction vs) auto
  then show ?thesis using a by (simp add: first_index_def)
qed

lemma sorted_nth0_Min: "sorted vs \<Longrightarrow> vs \<noteq> [] \<Longrightarrow> vs ! 0 = Min (set vs)"
  by (cases vs) (auto intro!: Min_eqI[symmetric])

lemma nth_image_minus:
  assumes "distinct vs" "k < length vs" "i < length vs"
  shows "(\<lambda>j. vs ! j) ` ({0..<length vs} - {k, i}) = set vs - {vs ! k, vs ! i}"
proof (intro set_eqI iffI)
  fix x assume "x \<in> (\<lambda>j. vs ! j) ` ({0..<length vs} - {k, i})"
  then obtain j where "j \<in> {0..<length vs} - {k, i}" "x = vs ! j" by blast
  then have j: "j < length vs" "j \<noteq> k" "j \<noteq> i" "x = vs ! j" by simp_all
  then show "x \<in> set vs - {vs ! k, vs ! i}"
    using assms by (auto simp: nth_eq_iff_index_eq)
next
  fix x assume x: "x \<in> set vs - {vs ! k, vs ! i}"
  then obtain j where j: "j < length vs" "vs ! j = x" by (auto simp: in_set_conv_nth)
  then have "j \<noteq> k" "j \<noteq> i" using x by auto
  then show "x \<in> (\<lambda>j. vs ! j) ` ({0..<length vs} - {k, i})" using j by force
qed

lemma other_count_list:
  fixes flat :: "nat list"
  assumes l: "label \<in> set flat"
  shows "\<exists>n. (case np_unique flat of (values, counts) \<Rightarrow>
            (case first_index values label of Inl e \<Rightarrow> Inl e
             | Inr label_idx \<Rightarrow>
                (case np_delete counts [0, label_idx] of Inl e \<Rightarrow> Inl e
                 | Inr rest \<Rightarrow> Inr (sum_list rest)))) = Inr n \<and>
         n = length (filter (\<lambda>x. x \<noteq> Min (set flat) \<and> x \<noteq> label) flat)"
proof -
  let ?vs = "sort (remdups flat)"
  let ?cs = "map (count_list flat) ?vs"
  have set_vs: "set ?vs = set flat" by simp
  have dist: "distinct ?vs" by simp
  have ne: "?vs \<noteq> []" using l set_vs by (metis empty_iff list.set(1))
  from first_index_nth[of label ?vs] l obtain i where
    i: "first_index ?vs label = Inr i" "i < length ?vs" "?vs ! i = label" by auto
  have len: "length ?cs = length ?vs" by simp
  have inr: "\<forall>j \<in> set [0, i]. j < length ?cs" using i(2) ne by auto
  note d = np_delete_sum[OF inr]
  have v0: "?vs ! 0 = Min (set flat)" using sorted_nth0_Min[of ?vs] ne by simp
  have "(\<Sum>j \<in> {0..<length ?cs} - set [0, i]. ?cs ! j) =
        (\<Sum>j \<in> {0..<length ?vs} - {0, i}. count_list flat (?vs ! j))"
    by (intro sum.cong) auto
  also have "\<dots> = sum (count_list flat) ((\<lambda>j. ?vs ! j) ` ({0..<length ?vs} - {0, i}))"
  proof (rule sum.reindex[symmetric, unfolded comp_def])
    show "inj_on ((!) ?vs) ({0..<length ?vs} - {0, i})"
      using dist by (auto simp: inj_on_def nth_eq_iff_index_eq)
  qed
  also have "(\<lambda>j. ?vs ! j) ` ({0..<length ?vs} - {0, i}) = set flat - {Min (set flat), label}"
  proof -
    have l0: "0 < length ?vs" using ne by blast
    have "(\<lambda>j. ?vs ! j) ` ({0..<length ?vs} - {0, i}) = set ?vs - {?vs ! 0, ?vs ! i}"
      by (rule nth_image_minus[OF dist l0 i(2)])
    then show ?thesis using v0 i(3) by simp
  qed
  also have "sum (count_list flat) (set flat - {Min (set flat), label}) =
      length (filter (\<lambda>x. x \<in> set flat - {Min (set flat), label}) flat)"
    by (rule sum_count_list_filter) simp
  also have "filter (\<lambda>x. x \<in> set flat - {Min (set flat), label}) flat =
      filter (\<lambda>x. x \<noteq> Min (set flat) \<and> x \<noteq> label) flat"
    by (rule filter_cong) auto
  finally have s: "(\<Sum>j \<in> {0..<length ?cs} - set [0, i]. ?cs ! j) =
      length (filter (\<lambda>x. x \<noteq> Min (set flat) \<and> x \<noteq> label) flat)" .
  show ?thesis
    using i(1) d(1) d(2) s by (simp add: np_unique_def Let_def)
qed

lemma set_flatten: "set (flatten a) = data a ` {v. in_bounds (shape a) v}"
  by (simp add: flatten_def set_indices)

lemma length_indices: "length (indices s) = size_of s"
  by (cases s) (simp add: length_product)

lemma each_iff:
  "label \<in> set (each cc) \<longleftrightarrow> label \<noteq> 0 \<and> (\<exists>v. in_bounds (shape cc) v \<and> data cc v = label)"
  by (auto simp: each_def set_flatten)

lemma set_np_where_eq:
  "set (np_where (eq_scalar cc label)) = {v. in_bounds (shape cc) v \<and> data cc v = label}"
  by (auto simp: np_where_def eq_scalar_def set_indices)

lemma tight_slice_in_range:
  assumes "xs \<noteq> []" "\<forall>x \<in> set xs. x < n"
  shows "slice_start n (tight_slice xs) = Min (set xs)"
    and "slice_len n (tight_slice xs) = Max (set xs) + 1 - Min (set xs)"
    and "Min (set xs) \<le> Max (set xs)" and "Max (set xs) < n"
proof -
  have mx: "Max (set xs) \<in> set xs" and mn: "Min (set xs) \<in> set xs"
    using assms(1) by (simp_all add: Max_in Min_in)
  show "Max (set xs) < n" using mx assms(2) by blast
  show "Min (set xs) \<le> Max (set xs)" using assms(1) by (simp add: Min_le mx)
  show "slice_start n (tight_slice xs) = Min (set xs)"
    using mn assms(2) by (auto simp: slice_start_def tight_slice_def min_def)
  show "slice_len n (tight_slice xs) = Max (set xs) + 1 - Min (set xs)"
    using mn mx assms(2) by (auto simp: slice_len_def tight_slice_def min_def)
qed

lemma walk: "(\<And>i. Suc i < n \<Longrightarrow> f (Suc i) = f i) \<Longrightarrow> i < n \<Longrightarrow> f i = f (0::nat)"
  by (induction i) auto

lemma cc_adjacent_nonzero:
  assumes "data (connected_components binary) v \<noteq> 0"
    and "data (connected_components binary) u \<noteq> 0"
    and "u \<in> set (neighbours26 v)"
  shows "data (connected_components binary) v = data (connected_components binary) u"
  using assms cc_adjacent[of binary v u] by (simp add: cc_zero_iff)

lemma solid_box_one_label:
  fixes z0 y0 x0 A B C :: nat
  assumes nz: "\<And>a b c. a < A \<Longrightarrow> b < B \<Longrightarrow> c < C \<Longrightarrow>
                 data (connected_components binary) (z0 + a, y0 + b, x0 + c) \<noteq> 0"
    and a: "a < A" and b: "b < B" and c: "c < C"
  shows "data (connected_components binary) (z0 + a, y0 + b, x0 + c) =
         data (connected_components binary) (z0, y0, x0)"
proof -
  let ?g = "\<lambda>a b c. data (connected_components binary) (z0 + a, y0 + b, x0 + c)"
  have "?g a b c = ?g a b 0"
  proof (rule walk[where f = "?g a b" and n = C, OF _ c])
    fix i assume "Suc i < C"
    then show "?g a b (Suc i) = ?g a b i"
      using a b by (intro cc_adjacent_nonzero nz) (simp_all add: neighbours26_iff)
  qed
  also have "?g a b 0 = ?g a 0 0"
  proof (rule walk[where f = "\<lambda>j. ?g a j 0" and n = B, OF _ b])
    fix i assume "Suc i < B"
    then show "?g a (Suc i) 0 = ?g a i 0"
      using a c by (intro cc_adjacent_nonzero nz) (simp_all add: neighbours26_iff)
  qed
  also have "?g a 0 0 = ?g 0 0 0"
  proof (rule walk[where f = "\<lambda>j. ?g j 0 0" and n = A, OF _ a])
    fix i assume "Suc i < A"
    then show "?g (Suc i) 0 0 = ?g i 0 0"
      using b c by (intro cc_adjacent_nonzero nz) (simp_all add: neighbours26_iff)
  qed
  finally show ?thesis by simp
qed

lemma tight_box_values:
  assumes l: "label \<in> set (each cc)"
  shows "\<exists>z0 y0 x0 A B C.
           set (flatten (tight_box cc label)) =
             {data cc (z0 + a, y0 + b, x0 + c) | a b c. a < A \<and> b < B \<and> c < C} \<and>
           label \<in> set (flatten (tight_box cc label))"
proof -
  let ?nw = "np_where (eq_scalar cc label)"
  obtain d h w where s: "shape cc = (d, h, w)" by (cases "shape cc")
  from l obtain v where v: "in_bounds (shape cc) v" "data cc v = label"
    unfolding each_iff by blast
  have setnw: "set ?nw = {v. in_bounds (shape cc) v \<and> data cc v = label}"
    by (rule set_np_where_eq)
  then have vin: "v \<in> set ?nw" using v by simp
  then have ne: "?nw \<noteq> []" by auto
  let ?zs = "map axis0 ?nw" and ?ys = "map axis1 ?nw" and ?xs = "map axis2 ?nw"
  have nes: "?zs \<noteq> []" "?ys \<noteq> []" "?xs \<noteq> []" using ne by simp_all
  have bz: "\<forall>z \<in> set ?zs. z < d" and by': "\<forall>y \<in> set ?ys. y < h" and bx: "\<forall>x \<in> set ?xs. x < w"
    using setnw s by auto
  note tz = tight_slice_in_range[OF nes(1) bz]
  note ty = tight_slice_in_range[OF nes(2) by']
  note tx = tight_slice_in_range[OF nes(3) bx]
  let ?z0 = "Min (set ?zs)" and ?y0 = "Min (set ?ys)" and ?x0 = "Min (set ?xs)"
  let ?A = "Max (set ?zs) + 1 - ?z0" and ?B = "Max (set ?ys) + 1 - ?y0"
    and ?C = "Max (set ?xs) + 1 - ?x0"
  have sh: "shape (tight_box cc label) = (?A, ?B, ?C)"
    by (simp add: tight_box_def relevant_ranges_def s tz(2) ty(2) tx(2))
  have dt: "data (tight_box cc label) (a, b, c) = data cc (?z0 + a, ?y0 + b, ?x0 + c)" for a b c
    by (simp add: tight_box_def getitem_def relevant_ranges_def s tz(1) ty(1) tx(1))
  have fl: "set (flatten (tight_box cc label)) =
      {data cc (?z0 + a, ?y0 + b, ?x0 + c) | a b c. a < ?A \<and> b < ?B \<and> c < ?C}"
    unfolding set_flatten sh
  proof (intro set_eqI iffI)
    fix k assume "k \<in> data (tight_box cc label) ` {v. in_bounds (?A, ?B, ?C) v}"
    then obtain u where u: "in_bounds (?A, ?B, ?C) u" "k = data (tight_box cc label) u" by blast
    obtain a b c where "u = (a, b, c)" by (cases u)
    then show "k \<in> {data cc (?z0 + a, ?y0 + b, ?x0 + c) | a b c. a < ?A \<and> b < ?B \<and> c < ?C}"
      using u dt by auto
  next
    fix k assume "k \<in> {data cc (?z0 + a, ?y0 + b, ?x0 + c) | a b c. a < ?A \<and> b < ?B \<and> c < ?C}"
    then obtain a b c where k: "k = data cc (?z0 + a, ?y0 + b, ?x0 + c)" "a < ?A" "b < ?B" "c < ?C"
      by blast
    then have "in_bounds (?A, ?B, ?C) (a, b, c)" "k = data (tight_box cc label) (a, b, c)"
      using dt by simp_all
    then show "k \<in> data (tight_box cc label) ` {v. in_bounds (?A, ?B, ?C) v}" by blast
  qed
  obtain z y x where vv: "v = (z, y, x)" by (cases v)
  have zin: "z \<in> set ?zs" "y \<in> set ?ys" "x \<in> set ?xs" using vin vv by force+
  have "?z0 \<le> z" "z \<le> Max (set ?zs)" "?y0 \<le> y" "y \<le> Max (set ?ys)"
       "?x0 \<le> x" "x \<le> Max (set ?xs)"
    using zin by simp_all
  then have "z - ?z0 < ?A" "?z0 + (z - ?z0) = z" "y - ?y0 < ?B" "?y0 + (y - ?y0) = y"
      "x - ?x0 < ?C" "?x0 + (x - ?x0) = x" by linarith+
  then have "label \<in> {data cc (?z0 + a, ?y0 + b, ?x0 + c) | a b c. a < ?A \<and> b < ?B \<and> c < ?C}"
    using v(2) vv by (smt (verit, best) mem_Collect_eq)
  then show ?thesis using fl by blast
qed

lemma other_non_bg_occurances_counts:
  assumes cc: "cc = connected_components binary" and l: "label \<in> set (each cc)"
  shows "other_non_bg_occurances cc (relevant_ranges (np_where (eq_scalar cc label))) label =
         Inr (length (filter (\<lambda>k. k \<noteq> 0 \<and> k \<noteq> label) (flatten (tight_box cc label))))"
proof -
  let ?flat = "flatten (tight_box cc label)"
  from tight_box_values[OF l] obtain z0 y0 x0 A B C where
    fl: "set ?flat = {data cc (z0 + a, y0 + b, x0 + c) | a b c. a < A \<and> b < B \<and> c < C}"
    and lin: "label \<in> set ?flat" by blast
  have same: "filter (\<lambda>x. x \<noteq> Min (set ?flat) \<and> x \<noteq> label) ?flat =
              filter (\<lambda>k. k \<noteq> 0 \<and> k \<noteq> label) ?flat"
  proof (cases "0 \<in> set ?flat")
    case True
    then have "Min (set ?flat) = 0" by (intro Min_eqI) simp_all
    then show ?thesis by simp
  next
    case False
    have nz: "data (connected_components binary) (z0 + a, y0 + b, x0 + c) \<noteq> 0"
      if "a < A" "b < B" "c < C" for a b c
      using False that fl cc by (smt (verit, best) mem_Collect_eq)
    have all: "k = data cc (z0, y0, x0)" if "k \<in> set ?flat" for k
    proof -
      from that fl obtain a b c where "k = data cc (z0 + a, y0 + b, x0 + c)" "a < A" "b < B" "c < C"
        by blast
      then show ?thesis using solid_box_one_label[of A B C binary z0 y0 x0 a b c] nz cc by simp
    qed
    then have "k = label" if "k \<in> set ?flat" for k using that lin by metis
    then have "filter (\<lambda>x. x \<noteq> Min (set ?flat) \<and> x \<noteq> label) ?flat = []"
      and "filter (\<lambda>k. k \<noteq> 0 \<and> k \<noteq> label) ?flat = []"
      by (auto simp: filter_empty_conv)
    then show ?thesis by simp
  qed
  from other_count_list[OF lin] same show ?thesis
    by (simp add: other_non_bg_occurances_def tight_box_def)
qed

lemma tight_box_not_empty:
  assumes "label \<in> set (each cc)"
  shows "size_of (shape (tight_box cc label)) \<noteq> 0"
proof -
  from tight_box_values[OF assms] have "flatten (tight_box cc label) \<noteq> []" by auto
  then show ?thesis by (simp add: flatten_def length_indices[symmetric])
qed

lemma blob_crop_characterised:
  assumes cc: "cc = connected_components binary" and l: "label \<in> set (each cc)"
  shows "blob_crop image_volume labels_volume params cc label =
         (if float64_round (allowed_perc_other_blobs params) < contamination_float64 cc label
          then Inr None
          else Inr (Some (crop_of image_volume labels_volume params cc label)))"
proof -
  let ?rr = "relevant_ranges (np_where (eq_scalar cc label))"
  have ne: "np_where (eq_scalar cc label) \<noteq> []"
    using l set_np_where_eq[of cc label] unfolding each_iff by auto
  have n: "size_of (shape (getitem cc ?rr)) \<noteq> 0"
    using tight_box_not_empty[OF l] unfolding tight_box_def .
  have o: "other_non_bg_occurances cc ?rr label = Inr (other_voxels cc label)"
    using other_non_bg_occurances_counts[OF cc l] unfolding other_voxels_def .
  have t: "too_many_other_blobs (other_voxels cc label) (size_of (shape (getitem cc ?rr)))
             (allowed_perc_other_blobs params) \<longleftrightarrow>
           float64_round (allowed_perc_other_blobs params) < contamination_float64 cc label"
    unfolding too_many_other_blobs_def contamination_float64_def tight_box_def using n by simp
  show ?thesis
    unfolding blob_crop_def Let_def crop_of_def using ne by (simp only: o t if_False sum.case)
qed

lemma crops_loop_characterised:
  assumes cc: "cc = connected_components binary" and l: "set labels \<subseteq> set (each cc)"
  shows "crops_loop image_volume labels_volume params cc labels =
         Inr (map (crop_of image_volume labels_volume params cc)
                (filter (\<lambda>label. \<not> float64_round (allowed_perc_other_blobs params) <
                                   contamination_float64 cc label) labels))"
  using l
proof (induction labels)
  case Nil
  then show ?case by simp
next
  case (Cons a labels)
  then have "a \<in> set (each cc)" by simp
  from blob_crop_characterised[OF cc this] Cons show ?case by simp
qed

section \<open>The scenario of the specification\<close>

lemma sorted_distinct_singleton:
  "distinct xs \<Longrightarrow> set xs = {k} \<Longrightarrow> xs = [k]"
proof -
  assume d: "distinct xs" and s: "set xs = {k}"
  then have "length xs = 1" using distinct_card[of xs] by simp
  then obtain a where "xs = [a]" by (cases xs) auto
  then show ?thesis using s by simp
qed

lemma box_axis_slices:
  assumes nw: "set nw = {v. z0 \<le> axis0 v \<and> axis0 v < z1 \<and> y0 \<le> axis1 v \<and> axis1 v < y1 \<and>
                           x0 \<le> axis2 v \<and> axis2 v < x1}"
    and ne: "z0 < z1" "y0 < y1" "x0 < x1"
  shows "Min (set (map axis0 nw)) = z0" "Max (set (map axis0 nw)) = z1 - 1"
        "Min (set (map axis1 nw)) = y0" "Max (set (map axis1 nw)) = y1 - 1"
        "Min (set (map axis2 nw)) = x0" "Max (set (map axis2 nw)) = x1 - 1"
proof -
  have f: "finite (set (map axis0 nw))" "finite (set (map axis1 nw))" "finite (set (map axis2 nw))"
    by simp_all
  have m0: "z \<in> set (map axis0 nw) \<longleftrightarrow> z0 \<le> z \<and> z < z1" for z
  proof
    assume "z \<in> set (map axis0 nw)"
    then show "z0 \<le> z \<and> z < z1" using nw by auto
  next
    assume "z0 \<le> z \<and> z < z1"
    then have "(z, y0, x0) \<in> set nw" using nw ne by simp
    then have "axis0 (z, y0, x0) \<in> set (map axis0 nw)" by (metis image_eqI set_map)
    then show "z \<in> set (map axis0 nw)" by simp
  qed
  have m1: "y \<in> set (map axis1 nw) \<longleftrightarrow> y0 \<le> y \<and> y < y1" for y
  proof
    assume "y \<in> set (map axis1 nw)"
    then show "y0 \<le> y \<and> y < y1" using nw by auto
  next
    assume "y0 \<le> y \<and> y < y1"
    then have "(z0, y, x0) \<in> set nw" using nw ne by simp
    then have "axis1 (z0, y, x0) \<in> set (map axis1 nw)" by (metis image_eqI set_map)
    then show "y \<in> set (map axis1 nw)" by simp
  qed
  have m2: "x \<in> set (map axis2 nw) \<longleftrightarrow> x0 \<le> x \<and> x < x1" for x
  proof
    assume "x \<in> set (map axis2 nw)"
    then show "x0 \<le> x \<and> x < x1" using nw by auto
  next
    assume "x0 \<le> x \<and> x < x1"
    then have "(z0, y0, x) \<in> set nw" using nw ne by simp
    then have "axis2 (z0, y0, x) \<in> set (map axis2 nw)" by (metis image_eqI set_map)
    then show "x \<in> set (map axis2 nw)" by simp
  qed
  show "Min (set (map axis0 nw)) = z0" using ne m0 by (intro Min_eqI f) auto
  show "Max (set (map axis0 nw)) = z1 - 1" using ne m0 by (intro Max_eqI f) auto
  show "Min (set (map axis1 nw)) = y0" using ne m1 by (intro Min_eqI f) auto
  show "Max (set (map axis1 nw)) = y1 - 1" using ne m1 by (intro Max_eqI f) auto
  show "Min (set (map axis2 nw)) = x0" using ne m2 by (intro Min_eqI f) auto
  show "Max (set (map axis2 nw)) = x1 - 1" using ne m2 by (intro Max_eqI f) auto
qed

lemma scenario_crops:
  "crop_to_boxes_of_interset_cc image_volume scenario_labels scenario_params =
     Inr [\<lparr>crop_ct = getitem image_volume ((9, 20), (28, 41), (28, 41)),
           crop_seg = getitem scenario_labels ((9, 20), (28, 41), (28, 41)),
           crop_ranges = ((9, 20), (28, 41), (28, 41)),
           location_string = ''5-6-6''\<rparr>]"
proof -
  let ?binary = "eq_scalar scenario_labels 2"
  let ?cc = "connected_components ?binary"
  let ?k = "data ?cc (10, 30, 30)"
  have sh: "shape ?cc = (50, 100, 100)" by (simp add: eq_scalar_def scenario_labels_def)
  have bin: "in_bounds (shape ?binary) (z, y, x) \<and> data ?binary (z, y, x) \<longleftrightarrow>
             10 \<le> z \<and> z < 20 \<and> 30 \<le> y \<and> y < 40 \<and> 30 \<le> x \<and> x < 40" for z y x
    by (auto simp: eq_scalar_def scenario_labels_def)
  have zero: "data ?cc (z, y, x) = 0 \<longleftrightarrow>
              \<not> (10 \<le> z \<and> z < 20 \<and> 30 \<le> y \<and> y < 40 \<and> 30 \<le> x \<and> x < 40)" for z y x
    unfolding cc_zero_iff bin ..
  have inbox: "data ?cc (10 + a, 30 + b, 30 + c) = ?k" if "a < 10" "b < 10" "c < 10" for a b c
    by (rule solid_box_one_label[where A = 10 and B = 10 and C = 10, OF _ that])
       (simp add: zero)
  have knz: "?k \<noteq> 0" by (simp add: zero)
  have lab: "data ?cc (z, y, x) = ?k \<longleftrightarrow>
             10 \<le> z \<and> z < 20 \<and> 30 \<le> y \<and> y < 40 \<and> 30 \<le> x \<and> x < 40" for z y x
  proof
    assume "data ?cc (z, y, x) = ?k"
    then show "10 \<le> z \<and> z < 20 \<and> 30 \<le> y \<and> y < 40 \<and> 30 \<le> x \<and> x < 40"
      using knz zero[of z y x] by metis
  next
    assume b: "10 \<le> z \<and> z < 20 \<and> 30 \<le> y \<and> y < 40 \<and> 30 \<le> x \<and> x < 40"
    then have "z - 10 < 10" "y - 30 < 10" "x - 30 < 10" by auto
    from inbox[OF this] b show "data ?cc (z, y, x) = ?k" by simp
  qed
  have ev: "set (each ?cc) = {?k}"
  proof (intro set_eqI iffI)
    fix l assume "l \<in> set (each ?cc)"
    then obtain v where l: "l \<noteq> 0" "data ?cc v = l" unfolding each_iff by blast
    obtain z y x where v: "v = (z, y, x)" by (cases v)
    have "data ?cc (z, y, x) \<noteq> 0" using l v by simp
    then have "10 \<le> z \<and> z < 20 \<and> 30 \<le> y \<and> y < 40 \<and> 30 \<le> x \<and> x < 40"
      unfolding zero by simp
    then have "data ?cc (z, y, x) = ?k" unfolding lab .
    then show "l \<in> {?k}" using l v by simp
  next
    fix l assume "l \<in> {?k}"
    moreover have "in_bounds (shape ?cc) (10, 30, 30)" unfolding sh by simp
    ultimately show "l \<in> set (each ?cc)" unfolding each_iff using knz by blast
  qed
  have "distinct (each ?cc)" by (simp add: each_def)
  then have each1: "each ?cc = [?k]" using ev by (rule sorted_distinct_singleton)
  let ?nw = "np_where (eq_scalar ?cc ?k)"
  have nw: "set ?nw = {v. 10 \<le> axis0 v \<and> axis0 v < 20 \<and> 30 \<le> axis1 v \<and> axis1 v < 40 \<and>
                          30 \<le> axis2 v \<and> axis2 v < 40}"
  proof (intro set_eqI)
    fix v :: idx
    obtain z y x where v: "v = (z, y, x)" by (cases v)
    show "v \<in> set ?nw \<longleftrightarrow> v \<in> {v. 10 \<le> axis0 v \<and> axis0 v < 20 \<and> 30 \<le> axis1 v \<and> axis1 v < 40 \<and>
                          30 \<le> axis2 v \<and> axis2 v < 40}"
      unfolding set_np_where_eq sh v using lab[of z y x] by auto
  qed
  have ne: "(10::nat) < 20" "(30::nat) < 40" by simp_all
  note ax = box_axis_slices[OF nw ne(1) ne(2) ne(2), unfolded set_map]
  have rr: "relevant_ranges ?nw = ((10, 20), (30, 40), (30, 40))"
    by (simp add: relevant_ranges_def tight_slice_def ax)
  have rm: "ranges_with_margins (slice_margins scenario_params) ?nw = ((9, 20), (28, 41), (28, 41))"
    by (simp add: scenario_params_def margin_slice_def ax)
  have "filter (\<lambda>l. l \<noteq> 0 \<and> l \<noteq> ?k) (flatten (tight_box ?cc ?k)) = []"
  proof -
    have "l = ?k" if "l \<in> set (flatten (tight_box ?cc ?k))" for l
    proof -
      have shb: "shape ?binary = (50, 100, 100)"
        by (simp add: eq_scalar_def scenario_labels_def)
      have tsh: "shape (tight_box ?cc ?k) = (10, 10, 10)"
        by (simp add: tight_box_def rr shb slice_len_def)
      have tdt: "data (tight_box ?cc ?k) (a, b, c) = data ?cc (10 + a, 30 + b, 30 + c)" for a b c
        by (simp add: tight_box_def rr getitem_def shb slice_start_def)
      from that obtain v where v: "in_bounds (10, 10, 10) v" "l = data (tight_box ?cc ?k) v"
        unfolding set_flatten tsh by blast
      obtain a b c where "v = (a, b, c)" by (cases v)
      then show ?thesis using v inbox[of a b c] tdt by simp
    qed
    then show ?thesis by (auto simp: filter_empty_conv)
  qed
  then have cont: "contamination_float64 ?cc ?k = 0"
    by (simp add: contamination_float64_def other_voxels_def)
  have loc: "location_string_of ((9, 20), (28, 41), (28, 41)) = ''5-6-6''" by code_simp
  have "crops_loop image_volume scenario_labels scenario_params ?cc (each ?cc) =
        Inr (map (crop_of image_volume scenario_labels scenario_params ?cc)
               (filter (\<lambda>label. \<not> float64_round (allowed_perc_other_blobs scenario_params) <
                                  contamination_float64 ?cc label)
                  (each ?cc)))"
    by (rule crops_loop_characterised[OF refl]) simp
  also have "\<dots> = Inr [crop_of image_volume scenario_labels scenario_params ?cc ?k]"
    unfolding each1 by (simp add: cont scenario_params_def)
  also have "crop_of image_volume scenario_labels scenario_params ?cc ?k =
      \<lparr>crop_ct = getitem image_volume ((9, 20), (28, 41), (28, 41)),
       crop_seg = getitem scenario_labels ((9, 20), (28, 41), (28, 41)),
       crop_ranges = ((9, 20), (28, 41), (28, 41)),
       location_string = ''5-6-6''\<rparr>"
    by (simp only: crop_of_def rm Let_def loc)
  finally show ?thesis
    by (simp add: crop_to_boxes_of_interset_cc_def Let_def scenario_params_def)
qed

section \<open>The claims\<close>

text \<open>
  C1. In the scenario the cropper returns exactly one crop, and it passes the overlap
  filter, but the box is not \<open>[9:21, 28:42, 28:42]\<close>: line 112 stops each slice at
  \<open>x.max() + margin\<close>, one index short of the tight stop plus the margin, so the crop is cut
  at \<open>[9:20, 28:41, 28:41]\<close> and both arrays have shape \<open>(11, 13, 13)\<close>.
\<close>

theorem scenario_crop_is_one_index_short:
  assumes "shape image_volume = (50, 100, 100)"
  shows "\<exists>c. crop_to_boxes_of_interset_cc image_volume scenario_labels scenario_params = Inr [c] \<and>
             crop_ranges c = ((9, 20), (28, 41), (28, 41)) \<and>
             shape (crop_ct c) = (11, 13, 13) \<and> shape (crop_seg c) = (11, 13, 13) \<and>
             location_string c = ''5-6-6''"
proof -
  let ?c = "\<lparr>crop_ct = getitem image_volume ((9, 20), (28, 41), (28, 41)),
             crop_seg = getitem scenario_labels ((9, 20), (28, 41), (28, 41)),
             crop_ranges = ((9, 20), (28, 41), (28, 41)),
             location_string = ''5-6-6''\<rparr>"
  have "crop_to_boxes_of_interset_cc image_volume scenario_labels scenario_params = Inr [?c]"
    by (rule scenario_crops)
  moreover have "shape (crop_ct ?c) = (11, 13, 13)"
    using assms by (simp add: slice_len_def)
  moreover have "shape (crop_seg ?c) = (11, 13, 13)"
    by (simp add: scenario_labels_def slice_len_def)
  ultimately show ?thesis by (intro exI[of _ ?c]) simp
qed

theorem scenario_crop_is_one_index_short_witness:
  "\<exists>c. crop_to_boxes_of_interset_cc scenario_labels scenario_labels scenario_params = Inr [c] \<and>
       shape (crop_ct c) = (11, 13, 13)"
proof -
  have "shape scenario_labels = (50, 100, 100)" by (simp add: scenario_labels_def)
  from scenario_crop_is_one_index_short[OF this] show ?thesis by blast
qed


text \<open>
  C9. When the label array of a volume has another shape than its CT array, line 148 raises
  an AssertionError: nothing is saved for that volume, and the loop over the volumes ends
  there, so nothing is saved for the volumes after it either. What the run leaves on disk
  is what the volumes ahead of it saved; if one of those raised first, the run ended there
  with that exception.
\<close>

theorem shape_mismatch_halts_batch:
  assumes "shape (seg_array f) \<noteq> shape (ct_array f)"
  shows "process_file ext cfg dir f = ([], Some AssertionError) \<and>
         fst (create_dataset ext cfg (pre @ f # post)) = fst (create_dataset ext cfg pre) \<and>
         snd (create_dataset ext cfg (pre @ f # post)) =
           (case snd (create_dataset ext cfg pre) of
              None \<Rightarrow> Some AssertionError | Some e \<Rightarrow> Some e)"
proof -
  have pf: "process_file ext cfg dir f = ([], Some AssertionError)" for dir
    using assms by (simp add: process_file_def)
  show ?thesis
    using files_loop_append_error[of ext cfg "new_ct_dir ext cfg" f pre post]
    by (simp add: create_dataset_def pf split: option.splits)
qed

theorem shape_mismatch_halts_batch_witness:
  "process_file example_ext example_config (new_ct_dir example_ext example_config) mismatched_file
     = ([], Some AssertionError) \<and>
   create_dataset example_ext example_config [example_file, mismatched_file, example_file]
     = (fst (create_dataset example_ext example_config [example_file]), Some AssertionError) \<and>
   length (fst (create_dataset example_ext example_config [example_file])) = 2"
proof -
  have h: "shape (seg_array mismatched_file) \<noteq> shape (ct_array mismatched_file)"
    by (simp add: mismatched_file_def row_def)
  have run: "snd (create_dataset example_ext example_config [example_file]) = None \<and>
             length (fst (create_dataset example_ext example_config [example_file])) = 2"
    by code_simp
  from shape_mismatch_halts_batch[OF h, of example_ext example_config _ "[example_file]" "[example_file]"]
    run show ?thesis by (simp add: prod_eq_iff)
qed

text \<open>
  C7. Every crop that \<open>create_dataset\<close> saves has a CT array and a label array of one
  shape, and no axis of that shape is shorter than the entry of \<open>min_sizes\<close> for it. A
  crop that is too small after resampling is dropped by line 175: the blob saves nothing and
  raises nothing, and the loop goes on with the next blob.
\<close>

theorem persisted_crops_pass_size_gate:
  "(\<forall>s \<in> set (fst (create_dataset ext cfg files)).
      shape (ct_saved s) = shape (seg_saved s) \<and>
      (case (shape (ct_saved s), min_sizes cfg) of
         ((d, h, w), (m0, m1, m2)) \<Rightarrow> m0 \<le> int d \<and> m1 \<le> int h \<and> m2 \<le> int w)) \<and>
   (\<forall>ct_a seg_a.
      resample ext cfg (ct_spacing_z f) (crop_ct b)
        (getitem (if remove_liver_label cfg then remove_liver seg (crop_ranges b) else seg)
           (crop_ranges b)) = Inr (ct_a, seg_a) \<and>
      too_small (shape ct_a) (min_sizes cfg) \<longrightarrow>
      process_blob ext cfg dir f i b seg =
        Inr (if remove_liver_label cfg then remove_liver seg (crop_ranges b) else seg, None))"
proof (intro conjI ballI allI impI)
  fix s assume "s \<in> set (fst (create_dataset ext cfg files))"
  then have "\<exists>f \<in> set files. shape (ct_saved s) = shape (seg_saved s) \<and>
               \<not> too_small (shape (ct_saved s)) (min_sizes cfg)"
    unfolding create_dataset_def
    by (rule files_loop_saved[rotated]) (rule process_file_gate)
  then have a: "shape (ct_saved s) = shape (seg_saved s)"
    and b: "\<not> too_small (shape (ct_saved s)) (min_sizes cfg)" by auto
  show "shape (ct_saved s) = shape (seg_saved s)" by (rule a)
  show "case (shape (ct_saved s), min_sizes cfg) of
         ((d, h, w), (m0, m1, m2)) \<Rightarrow> m0 \<le> int d \<and> m1 \<le> int h \<and> m2 \<le> int w"
    using b unfolding too_small_iff by (auto split: prod.splits)
next
  fix ct_a seg_a
  assume "resample ext cfg (ct_spacing_z f) (crop_ct b)
        (getitem (if remove_liver_label cfg then remove_liver seg (crop_ranges b) else seg)
           (crop_ranges b)) = Inr (ct_a, seg_a) \<and>
      too_small (shape ct_a) (min_sizes cfg)"
  then show "process_blob ext cfg dir f i b seg =
        Inr (if remove_liver_label cfg then remove_liver seg (crop_ranges b) else seg, None)"
    by (simp add: process_blob_def Let_def)
qed

theorem persisted_crops_pass_size_gate_witness:
  "length (fst (create_dataset example_ext example_config [example_file])) = 2 \<and>
   shape (ct_saved (hd (fst (create_dataset example_ext example_config [example_file])))) =
   shape (seg_saved (hd (fst (create_dataset example_ext example_config [example_file])))) \<and>
   process_blob example_ext (example_config\<lparr>min_sizes := (3, 30, 30)\<rparr>) ''out'' example_file 0
     \<lparr>crop_ct = row [5, 512], crop_seg = row [2, 2], crop_ranges = ((0, 1), (0, 1), (0, 2)),
      location_string = ''0-0-1''\<rparr> (seg_array example_file)
   = Inr (remove_liver (seg_array example_file) ((0, 1), (0, 1), (0, 2)), None)"
proof -
  let ?saves = "fst (create_dataset example_ext example_config [example_file])"
  let ?cfg = "example_config\<lparr>min_sizes := (3, 30, 30)\<rparr>"
  let ?b = "\<lparr>crop_ct = row [5, 512], crop_seg = row [2, 2],
             crop_ranges = ((0, 1), (0, 1), (0, 2)), location_string = ''0-0-1''\<rparr>"
  have len: "length ?saves = 2" by code_simp
  then have mem: "hd ?saves \<in> set ?saves" by (cases ?saves) auto
  have r: "resample example_ext ?cfg (ct_spacing_z example_file) (crop_ct ?b)
             (getitem (if remove_liver_label ?cfg
                       then remove_liver (seg_array example_file) (crop_ranges ?b)
                       else seg_array example_file) (crop_ranges ?b))
           = Inr (row [5, 512], getitem (remove_liver (seg_array example_file) ((0, 1), (0, 1), (0, 2)))
                    ((0, 1), (0, 1), (0, 2)))"
    by (simp add: resample_def example_config_def)
  have small: "too_small (shape (row [5, 512])) (min_sizes ?cfg)"
    by (simp add: row_def)
  have rl: "remove_liver_label ?cfg" by (simp add: example_config_def)
  note a = persisted_crops_pass_size_gate[where ext = example_ext and cfg = example_config
      and files = "[example_file]"]
  from a mem have "shape (ct_saved (hd ?saves)) = shape (seg_saved (hd ?saves))" by blast
  moreover from persisted_crops_pass_size_gate[where ext = example_ext and cfg = ?cfg
      and files = "[]" and f = example_file and b = ?b and seg = "seg_array example_file"
      and dir = "''out''" and i = 0] r small rl
  have "process_blob example_ext ?cfg ''out'' example_file 0 ?b (seg_array example_file)
        = Inr (remove_liver (seg_array example_file) ((0, 1), (0, 1), (0, 2)), None)"
    by simp
  ultimately show ?thesis using len by simp
qed

text \<open>
  C4. For the components \<open>cc\<close> of the mask of the cropping label and every blob the loop
  of line 100 visits: the blob is skipped exactly when the number of voxels of its tight box
  that carry a label other than 0 and other than the blob's own, divided in double precision
  by the number of voxels of the box, exceeds the double of \<open>allowed_perc_other_blobs\<close>,
  and otherwise its crop is appended; so the cropper returns the crops of the blobs for
  which that quotient does not exceed the tolerance, in the order of their labels, and raises
  nothing. Line 105 removes the count at position 0 as the count of the background; when the
  tight box holds no background voxel it holds no other component either (two components
  never touch), position 0 is then the blob's own label and the count is right all the same.
\<close>

theorem overlap_filter_rejects_iff_float64_quotient_exceeds:
  assumes "cc = connected_components (eq_scalar labels_volume (cropping_lable params))"
  shows "(\<forall>label \<in> set (each cc).
            blob_crop image_volume labels_volume params cc label =
              (if float64_round (allowed_perc_other_blobs params) < contamination_float64 cc label
               then Inr None
               else Inr (Some (crop_of image_volume labels_volume params cc label)))) \<and>
         crop_to_boxes_of_interset_cc image_volume labels_volume params =
           Inr (map (crop_of image_volume labels_volume params cc)
                  (filter (\<lambda>label. \<not> float64_round (allowed_perc_other_blobs params) <
                                     contamination_float64 cc label)
                     (each cc)))"
proof (intro conjI ballI)
  fix label assume "label \<in> set (each cc)"
  then show "blob_crop image_volume labels_volume params cc label =
              (if float64_round (allowed_perc_other_blobs params) < contamination_float64 cc label
               then Inr None
               else Inr (Some (crop_of image_volume labels_volume params cc label)))"
    by (rule blob_crop_characterised[OF assms])
next
  have "crops_loop image_volume labels_volume params cc (each cc) =
        Inr (map (crop_of image_volume labels_volume params cc)
               (filter (\<lambda>label. \<not> float64_round (allowed_perc_other_blobs params) <
                                  contamination_float64 cc label)
                  (each cc)))"
    by (rule crops_loop_characterised[OF assms]) simp
  then show "crop_to_boxes_of_interset_cc image_volume labels_volume params =
           Inr (map (crop_of image_volume labels_volume params cc)
                  (filter (\<lambda>label. \<not> float64_round (allowed_perc_other_blobs params) <
                                     contamination_float64 cc label)
                     (each cc)))"
    using assms by (simp add: crop_to_boxes_of_interset_cc_def Let_def)
qed

theorem overlap_filter_rejects_iff_float64_quotient_exceeds_witness:
  "each (connected_components (eq_scalar corner_labels 2)) = [1, 2] \<and>
   contamination_float64 (connected_components (eq_scalar corner_labels 2)) 1 =
     2001599834386887 / 18014398509481984 \<and>
   contamination_float64 (connected_components (eq_scalar corner_labels 2)) 2 = 0 \<and>
   blob_crop corner_labels corner_labels strict_params
     (connected_components (eq_scalar corner_labels 2)) 1 = Inr None \<and>
   crop_to_boxes_of_interset_cc corner_labels corner_labels strict_params =
     Inr [crop_of corner_labels corner_labels strict_params
            (connected_components (eq_scalar corner_labels 2)) 2]"
proof -
  let ?cc = "connected_components (eq_scalar corner_labels 2)"
  have e: "each ?cc = [1, 2]" by code_simp
  have c1: "contamination_float64 ?cc 1 = 2001599834386887 / 18014398509481984" by code_simp
  have c2: "contamination_float64 ?cc 2 = 0" by code_simp
  have p: "cropping_lable strict_params = 2"
    "float64_round (allowed_perc_other_blobs strict_params) =
       3602879701896397 / 36028797018963968"
    by (simp_all add: strict_params_def example_params_def float64_round_examples)
  have cc: "?cc = connected_components (eq_scalar corner_labels (cropping_lable strict_params))"
    by (simp add: p)
  note t = overlap_filter_rejects_iff_float64_quotient_exceeds[OF cc, of corner_labels]
  have "blob_crop corner_labels corner_labels strict_params ?cc 1 = Inr None"
    using t e c1 p by simp
  moreover have "crop_to_boxes_of_interset_cc corner_labels corner_labels strict_params =
     Inr [crop_of corner_labels corner_labels strict_params ?cc 2]"
    using t e c1 c2 p by simp
  ultimately show ?thesis using e c1 c2 by blast
qed

text \<open>
  C4 with the quotient taken exactly fails. In \<open>corner_labels\<close> the tight box of the L
  has nine voxels and one of them belongs to the other component, so the contamination of
  the L is one ninth, and that exceeds the tolerance of \<open>ninth_params\<close>, the double nearest
  to one ninth. Line 108 divides in double precision and gets that same double, which does
  not exceed the tolerance: the L is not skipped, and the cropper returns two crops.
\<close>

theorem exact_quotient_above_tolerance_is_kept:
  "float64_round (allowed_perc_other_blobs ninth_params) = allowed_perc_other_blobs ninth_params \<and>
   contamination (connected_components (eq_scalar corner_labels 2)) 1 = 1 / 9 \<and>
   allowed_perc_other_blobs ninth_params <
     contamination (connected_components (eq_scalar corner_labels 2)) 1 \<and>
   (case blob_crop corner_labels corner_labels ninth_params
           (connected_components (eq_scalar corner_labels 2)) 1 of
      Inl e \<Rightarrow> None | Inr c \<Rightarrow> map_option crop_ranges c) =
     Some ((0, 1), (0, 3), (0, 3)) \<and>
   map crop_ranges
     (case crop_to_boxes_of_interset_cc corner_labels corner_labels ninth_params of
        Inl e \<Rightarrow> [] | Inr crops \<Rightarrow> crops) =
     [((0, 1), (0, 3), (0, 3)), ((0, 1), (0, 1), (1, 3))]"
proof -
  let ?cc = "connected_components (eq_scalar corner_labels 2)"
  have d: "float64_round (allowed_perc_other_blobs ninth_params) =
           allowed_perc_other_blobs ninth_params"
    by code_simp
  have c: "contamination ?cc 1 = 1 / 9" by code_simp
  have a: "allowed_perc_other_blobs ninth_params < 1 / 9"
    by (simp add: ninth_params_def)
  have b: "(case blob_crop corner_labels corner_labels ninth_params ?cc 1 of
              Inl e \<Rightarrow> None | Inr c \<Rightarrow> map_option crop_ranges c) =
           Some ((0, 1), (0, 3), (0, 3))"
    by code_simp
  have r: "map crop_ranges
     (case crop_to_boxes_of_interset_cc corner_labels corner_labels ninth_params of
        Inl e \<Rightarrow> [] | Inr crops \<Rightarrow> crops) =
     [((0, 1), (0, 3), (0, 3)), ((0, 1), (0, 1), (1, 3))]"
    by code_simp
  from d c a b r show ?thesis by simp
qed

text \<open>
  C5. Every saved CT array is cut from the CT array as line 152 clipped it, so without
  resampling all its values lie in the clipping range. With resampling the saved CT array
  is what the zoom of order 3 returns for such a crop: the values are clipped before the
  zoom and not after it.
\<close>

theorem saved_ct_is_clipped_before_resampling:
  assumes "s \<in> set (fst (create_dataset ext cfg files))"
  shows "(\<not> resampling cfg \<longrightarrow>
            (\<forall>v. IMG_MIN_VAL \<le> data (ct_saved s) v \<and> data (ct_saved s) v \<le> IMG_MAX_VAL)) \<and>
         (resampling cfg \<longrightarrow>
            (\<exists>f \<in> set files. \<exists>r.
               ct_saved s =
                 zoom_order3 ext (new_dims cfg (ct_spacing_z f))
                   (getitem (np_clip (ct_array f) IMG_MIN_VAL IMG_MAX_VAL) r) \<and>
               (\<forall>v. IMG_MIN_VAL \<le> data (getitem (np_clip (ct_array f) IMG_MIN_VAL IMG_MAX_VAL) r) v \<and>
                    data (getitem (np_clip (ct_array f) IMG_MIN_VAL IMG_MAX_VAL) r) v \<le> IMG_MAX_VAL)))"
proof -
  have "\<exists>f \<in> set files. \<exists>r. ct_saved s =
           (if resampling cfg
            then zoom_order3 ext (new_dims cfg (ct_spacing_z f))
                   (getitem (np_clip (ct_array f) IMG_MIN_VAL IMG_MAX_VAL) r)
            else getitem (np_clip (ct_array f) IMG_MIN_VAL IMG_MAX_VAL) r)"
    using assms unfolding create_dataset_def
    by (rule files_loop_saved[rotated]) (rule process_file_saved_ct)
  then obtain f r where f: "f \<in> set files" and
    s: "ct_saved s =
           (if resampling cfg
            then zoom_order3 ext (new_dims cfg (ct_spacing_z f))
                   (getitem (np_clip (ct_array f) IMG_MIN_VAL IMG_MAX_VAL) r)
            else getitem (np_clip (ct_array f) IMG_MIN_VAL IMG_MAX_VAL) r)"
    by blast
  show ?thesis
  proof (intro conjI impI)
    assume "\<not> resampling cfg"
    with s have "ct_saved s = getitem (np_clip (ct_array f) IMG_MIN_VAL IMG_MAX_VAL) r" by simp
    then show "\<forall>v. IMG_MIN_VAL \<le> data (ct_saved s) v \<and> data (ct_saved s) v \<le> IMG_MAX_VAL"
      using clipped_crop_within_range[of "ct_array f" r] by simp
  next
    assume "resampling cfg"
    with s have "ct_saved s = zoom_order3 ext (new_dims cfg (ct_spacing_z f))
                   (getitem (np_clip (ct_array f) IMG_MIN_VAL IMG_MAX_VAL) r)" by simp
    then show "\<exists>f \<in> set files. \<exists>r.
               ct_saved s =
                 zoom_order3 ext (new_dims cfg (ct_spacing_z f))
                   (getitem (np_clip (ct_array f) IMG_MIN_VAL IMG_MAX_VAL) r) \<and>
               (\<forall>v. IMG_MIN_VAL \<le> data (getitem (np_clip (ct_array f) IMG_MIN_VAL IMG_MAX_VAL) r) v \<and>
                    data (getitem (np_clip (ct_array f) IMG_MIN_VAL IMG_MAX_VAL) r) v \<le> IMG_MAX_VAL)"
      using f clipped_crop_within_range[of "ct_array f" r] by blast
  qed
qed

theorem saved_ct_is_clipped_before_resampling_witness:
  "(\<forall>v. IMG_MIN_VAL \<le>
          data (ct_saved (hd (fst (create_dataset example_ext example_config [example_file])))) v \<and>
        data (ct_saved (hd (fst (create_dataset example_ext example_config [example_file])))) v
          \<le> IMG_MAX_VAL) \<and>
   (\<exists>r. ct_saved (hd (fst (create_dataset overshooting_ext upscaling_config [edge_file]))) =
          zoom_order3 overshooting_ext (new_dims upscaling_config 1)
            (getitem (np_clip (ct_array edge_file) IMG_MIN_VAL IMG_MAX_VAL) r))"
proof -
  let ?plain = "fst (create_dataset example_ext example_config [example_file])"
  let ?zoomed = "fst (create_dataset overshooting_ext upscaling_config [edge_file])"
  have "length ?plain = 2" by code_simp
  then have m1: "hd ?plain \<in> set ?plain" by (cases ?plain) auto
  have "length ?zoomed = 1" by code_simp
  then have m2: "hd ?zoomed \<in> set ?zoomed" by (cases ?zoomed) auto
  have n: "\<not> resampling example_config" by (simp add: example_config_def)
  have y: "resampling upscaling_config" by code_simp
  have sp: "ct_spacing_z edge_file = 1" by (simp add: edge_file_def)
  from saved_ct_is_clipped_before_resampling[OF m1] n
  have "\<forall>v. IMG_MIN_VAL \<le> data (ct_saved (hd ?plain)) v \<and>
            data (ct_saved (hd ?plain)) v \<le> IMG_MAX_VAL" by blast
  moreover from saved_ct_is_clipped_before_resampling[OF m2] y sp
  have "\<exists>r. ct_saved (hd ?zoomed) =
          zoom_order3 overshooting_ext (new_dims upscaling_config 1)
            (getitem (np_clip (ct_array edge_file) IMG_MIN_VAL IMG_MAX_VAL) r)"
    by simp blast
  ultimately show ?thesis by blast
qed

text \<open>
  C5 as it is stated fails with resampling. For \<open>edge_file\<close>, whose CT values are clipped
  to \<open>- 512\<close> and \<open>512\<close>, and a zoom of order 3 that goes 89 beyond the values at the jump,
  the one CT array that is saved holds \<open>- 601\<close> and \<open>601\<close>: what the zoom returns is saved
  as it is.
\<close>

theorem resampled_ct_leaves_clip_range:
  "flatten (np_clip (ct_array edge_file) IMG_MIN_VAL IMG_MAX_VAL) = [- 512, - 512, 512, 512] \<and>
   map (\<lambda>s. flatten (ct_saved s)) (fst (create_dataset overshooting_ext upscaling_config [edge_file])) =
     [[- 512, - 512, - 512, - 601, 601, 512, 512, 512,
       - 512, - 512, - 512, - 601, 601, 512, 512, 512]] \<and>
   in_bounds (shape (ct_saved (hd (fst (create_dataset overshooting_ext upscaling_config [edge_file])))))
     (0, 0, 4) \<and>
   data (ct_saved (hd (fst (create_dataset overshooting_ext upscaling_config [edge_file])))) (0, 0, 4)
     = 601 \<and>
   IMG_MAX_VAL < 601"
proof -
  let ?saves = "fst (create_dataset overshooting_ext upscaling_config [edge_file])"
  have a: "flatten (np_clip (ct_array edge_file) IMG_MIN_VAL IMG_MAX_VAL) = [- 512, - 512, 512, 512]"
    by code_simp
  have b: "map (\<lambda>s. flatten (ct_saved s)) ?saves =
     [[- 512, - 512, - 512, - 601, 601, 512, 512, 512,
       - 512, - 512, - 512, - 601, 601, 512, 512, 512]]"
    by code_simp
  have c: "in_bounds (shape (ct_saved (hd ?saves))) (0, 0, 4)" by code_simp
  have d: "data (ct_saved (hd ?saves)) (0, 0, 4) = 601" by code_simp
  have e: "IMG_MAX_VAL < 601" by (simp add: IMG_MAX_VAL_def)
  from a b c d e show ?thesis by blast
qed

text \<open>
  C6. Lines 164 and 165 are to turn label 1 into 0 and label 2 into 1 in every saved label
  array, but they change the label crop in place, and the label crops of one volume are
  views of one array: where two crops overlap, the voxels they share are remapped once for
  each crop. In \<open>overlap_file\<close> the crop of the first blob is \<open>[0:3]\<close> and holds both 2s;
  it is saved as \<open>[1, 0, 1]\<close> and leaves the label array of the volume as
  \<open>[1, 0, 1, 0]\<close>. The crop of the second blob, \<open>[0:4]\<close>, then has its 1s, which were 2s,
  turned into 0: it is saved as \<open>[0, 0, 0, 0]\<close>, and no label 2 of the source is renamed to
  1 in it.
\<close>

theorem overlapping_crops_are_remapped_twice:
  "flatten (seg_array overlap_file) = [2, 0, 2, 0] \<and>
   map (\<lambda>c. (crop_ranges c, flatten (crop_seg c)))
     (case all_blobs overlap_config (np_clip (ct_array overlap_file) IMG_MIN_VAL IMG_MAX_VAL)
             (seg_array overlap_file) of
        Inl e \<Rightarrow> [] | Inr blobs \<Rightarrow> blobs) =
     [(((0, 3), (0, 3), (0, 3)), [2, 0, 2]), (((0, 3), (0, 3), (0, 5)), [2, 0, 2, 0])] \<and>
   create_dataset example_ext overlap_config [overlap_file] =
     (fst (create_dataset example_ext overlap_config [overlap_file]), None) \<and>
   map (\<lambda>s. flatten (seg_saved s)) (fst (create_dataset example_ext overlap_config [overlap_file])) =
     [[1, 0, 1], [0, 0, 0, 0]] \<and>
   distinct (map seg_path (fst (create_dataset example_ext overlap_config [overlap_file])))"
proof -
  let ?run = "create_dataset example_ext overlap_config [overlap_file]"
  have a: "flatten (seg_array overlap_file) = [2, 0, 2, 0]" by code_simp
  have b: "map (\<lambda>c. (crop_ranges c, flatten (crop_seg c)))
     (case all_blobs overlap_config (np_clip (ct_array overlap_file) IMG_MIN_VAL IMG_MAX_VAL)
             (seg_array overlap_file) of
        Inl e \<Rightarrow> [] | Inr blobs \<Rightarrow> blobs) =
     [(((0, 3), (0, 3), (0, 3)), [2, 0, 2]), (((0, 3), (0, 3), (0, 5)), [2, 0, 2, 0])]"
    by code_simp
  have c: "snd ?run = None" by code_simp
  have d: "map (\<lambda>s. flatten (seg_saved s)) (fst ?run) = [[1, 0, 1], [0, 0, 0, 0]]" by code_simp
  have e: "distinct (map seg_path (fst ?run))" by code_simp
  from c have "?run = (fst ?run, None)" by (simp add: prod_eq_iff)
  with a b d e show ?thesis by blast
qed

text \<open>
  C10. The label crop is saved under the path of the CT crop with every \<open>volume\<close> replaced
  by \<open>segmentation\<close> (line 186). The floats in the directory name are rendered without the
  letter \<open>o\<close>, as Python renders them; then for a CT file whose base name does not contain
  \<open>volume\<close> the path holds no \<open>volume\<close> at all, the label array is saved to the path of
  the CT array, and after both writes that path holds the label array.
\<close>

theorem label_overwrites_ct_without_volume_in_name:
  assumes "\<forall>r. CHR ''o'' \<notin> set (str_float ext r)"
    and "\<not> sublist ''volume'' (splitext_root (ct_filename f))"
    and "s \<in> set (fst (process_file ext cfg (new_ct_dir ext cfg) f))"
  shows "seg_path s = replace_str ''volume'' ''segmentation'' (ct_path s) \<and>
         seg_path s = ct_path s \<and>
         np_save_pair disk s (ct_path s) = Some (seg_saved s)"
proof -
  from process_file_paths[OF assms(3)] obtain i loc where
    loc: "loc = [] \<or> (\<exists>r. loc = location_string_of r)" and
    p: "ct_path s = path_join (new_ct_dir ext cfg) (crop_fname (ct_filename f) loc i)" and
    sp: "seg_path s = replace_str ''volume'' ''segmentation'' (ct_path s)"
    by blast
  let ?a = "processed_dir ext cfg @ ''/ct/''"
  let ?m = "splitext_root (ct_filename f)"
  let ?b = "if loc \<noteq> [] then ''-('' @ loc @ '').npy'' else ''-'' @ str_nat i @ ''.npy''"
  have path: "ct_path s = ?a @ ?m @ ?b"
    by (simp add: p path_join_def new_ct_dir_def crop_fname_def)
  have "CHR ''o'' \<notin> set ?a" using processed_dir_no_o[OF assms(1)] by simp
  then have na: "\<not> sublist ''volume'' ?a" by (rule no_o_no_volume)
  have "CHR ''o'' \<notin> set ?b" using loc by auto
  then have nb: "\<not> sublist ''volume'' ?b" by (rule no_o_no_volume)
  have "\<not> sublist ''volume'' (?m @ ?b)"
    by (rule not_sublist_append_hd[OF assms(2) nb]) simp
  then have "\<not> sublist ''volume'' (?a @ ?m @ ?b)"
    by (rule not_sublist_append_last[OF na]) simp
  then have "replace_str ''volume'' ''segmentation'' (ct_path s) = ct_path s"
    unfolding path by (rule replace_str_absent)
  then show ?thesis using sp by (simp add: np_save_pair_def)
qed

theorem label_overwrites_ct_without_volume_in_name_witness:
  "length (fst (process_file example_ext example_config
                  (new_ct_dir example_ext example_config) unnamed_file)) = 2 \<and>
   ct_path (hd (fst (process_file example_ext example_config
                  (new_ct_dir example_ext example_config) unnamed_file))) =
     ''LiverData_(S-1.0_MS-(1, 1, 2)_MM-1.0RL-True_CP-[CL-2_margins-(1, 1, 1)_OB-1.0_MD-1])/ct/scan-7-(0-0-1).npy'' \<and>
   seg_path (hd (fst (process_file example_ext example_config
                  (new_ct_dir example_ext example_config) unnamed_file))) =
     ct_path (hd (fst (process_file example_ext example_config
                  (new_ct_dir example_ext example_config) unnamed_file)))"
proof -
  let ?saves = "fst (process_file example_ext example_config
                  (new_ct_dir example_ext example_config) unnamed_file)"
  have len: "length ?saves = 2" by code_simp
  then have mem: "hd ?saves \<in> set ?saves" by (cases ?saves) auto
  have p: "ct_path (hd ?saves) =
     ''LiverData_(S-1.0_MS-(1, 1, 2)_MM-1.0RL-True_CP-[CL-2_margins-(1, 1, 1)_OB-1.0_MD-1])/ct/scan-7-(0-0-1).npy''"
    by code_simp
  have h1: "\<forall>r. CHR ''o'' \<notin> set (str_float example_ext r)" by (simp add: example_ext_def)
  have h2: "\<not> sublist ''volume'' (splitext_root (ct_filename unnamed_file))" by code_simp
  from label_overwrites_ct_without_volume_in_name[OF h1 h2 mem] len p show ?thesis by simp
qed

text \<open>
  C2. With margins \<open>(0, 0, 0)\<close> the box with margins should be the tight box. Line 112
  takes \<open>x.max() + margin\<close> for the stop where line 102 takes \<open>x.max() + 1\<close>, so on every
  axis the box with margins starts where the tight box starts and stops one index earlier:
  the two boxes always differ. For the blob at indices 1 to 3 of a row of five voxels the
  tight box is \<open>[0:1, 0:1, 1:4]\<close> and the crop is cut at \<open>[0:0, 0:0, 1:3]\<close>, of shape
  \<open>(0, 0, 2)\<close>.
\<close>

theorem zero_margins_lose_last_slice:
  "margin_slice 0 xs = (fst (tight_slice xs), snd (tight_slice xs) - 1) \<and>
   ranges_with_margins (0, 0, 0) nwhere \<noteq> relevant_ranges nwhere \<and>
   relevant_ranges (np_where (eq_scalar (row [0, 2, 2, 2, 0]) 2)) = ((0, 1), (0, 1), (1, 4)) \<and>
   (case crop_to_boxes_of_interset_cc (row [5, 6, 7, 8, 9]) (row [0, 2, 2, 2, 0])
           (example_params\<lparr>slice_margins := (0, 0, 0)\<rparr>) of
      Inl e \<Rightarrow> [] | Inr crops \<Rightarrow> map (\<lambda>c. (crop_ranges c, shape (crop_ct c))) crops) =
     [(((0, 0), (0, 0), (1, 3)), (0, 0, 2))]"
proof -
  have "margin_slice 0 xs = (fst (tight_slice xs), snd (tight_slice xs) - 1)"
    by (simp add: margin_slice_def tight_slice_def)
  moreover have "ranges_with_margins (0, 0, 0) nwhere \<noteq> relevant_ranges nwhere"
    by (simp add: relevant_ranges_def margin_slice_def tight_slice_def)
  moreover have
    "relevant_ranges (np_where (eq_scalar (row [0, 2, 2, 2, 0]) 2)) = ((0, 1), (0, 1), (1, 4))"
    by code_simp
  moreover have "(case crop_to_boxes_of_interset_cc (row [5, 6, 7, 8, 9]) (row [0, 2, 2, 2, 0])
           (example_params\<lparr>slice_margins := (0, 0, 0)\<rparr>) of
      Inl e \<Rightarrow> [] | Inr crops \<Rightarrow> map (\<lambda>c. (crop_ranges c, shape (crop_ct c))) crops) =
     [(((0, 0), (0, 0), (1, 3)), (0, 0, 2))]"
    by code_simp
  ultimately show ?thesis by blast
qed

text \<open>
  C3. The components are found in the mask as line 96 made it: line 97 computes the dilated
  mask and drops it, so the crops do not depend on \<open>mask_dilation\<close>. In the row
  \<open>[2, 0, 2]\<close> one round of dilation closes the gap and the dilated mask has one component,
  but with \<open>mask_dilation = 1\<close> the cropper still finds the two components of the mask that
  was not dilated and returns two crops.
\<close>

theorem mask_dilation_is_dropped:
  "crop_to_boxes_of_interset_cc image_volume labels_volume (params\<lparr>mask_dilation := n\<rparr>) =
   crop_to_boxes_of_interset_cc image_volume labels_volume params \<and>
   flatten (connected_components (eq_scalar (row [2, 0, 2]) 2)) = [1, 0, 2] \<and>
   flatten (binary_dilation (eq_scalar (row [2, 0, 2]) 2) 1) = [True, True, True] \<and>
   flatten (connected_components (binary_dilation (eq_scalar (row [2, 0, 2]) 2) 1)) = [1, 1, 1] \<and>
   (case crop_to_boxes_of_interset_cc (row [7, 8, 9]) (row [2, 0, 2]) example_params of
      Inl e \<Rightarrow> [] | Inr crops \<Rightarrow> map crop_ranges crops) =
     [((0, 1), (0, 1), (0, 1)), ((0, 1), (0, 1), (1, 3))]"
proof -
  have "crop_to_boxes_of_interset_cc image_volume labels_volume (params\<lparr>mask_dilation := n\<rparr>) =
        crop_to_boxes_of_interset_cc image_volume labels_volume params"
    by (simp add: crop_to_boxes_of_interset_cc_def Let_def crops_loop_mask_dilation)
  moreover have "flatten (connected_components (eq_scalar (row [2, 0, 2]) 2)) = [1, 0, 2]"
    by code_simp
  moreover have "flatten (binary_dilation (eq_scalar (row [2, 0, 2]) 2) 1) = [True, True, True]"
    by code_simp
  moreover have
    "flatten (connected_components (binary_dilation (eq_scalar (row [2, 0, 2]) 2) 1)) = [1, 1, 1]"
    by code_simp
  moreover have "(case crop_to_boxes_of_interset_cc (row [7, 8, 9]) (row [2, 0, 2]) example_params of
      Inl e \<Rightarrow> [] | Inr crops \<Rightarrow> map crop_ranges crops) =
     [((0, 1), (0, 1), (0, 1)), ((0, 1), (0, 1), (1, 3))]"
    by code_simp
  ultimately show ?thesis by blast
qed

text \<open>
  C8. The location string of line 114 holds half the extent of the box on each axis, not
  where the box lies, so two blobs with boxes of the same size get the same file name. The
  volume \<open>example_file\<close> has two blobs of label 2, with boxes \<open>[0:1, 0:1, 0:2]\<close> and
  \<open>[0:1, 0:1, 3:6]\<close>; both crops are saved under \<open>volume-0-(0-0-1).npy\<close>, and after the
  run that file holds the CT crop of the second blob.
\<close>

theorem same_size_blobs_share_a_filename:
  "map ct_path (fst (create_dataset example_ext example_config [example_file])) =
     [''LiverData_(S-1.0_MS-(1, 1, 2)_MM-1.0RL-True_CP-[CL-2_margins-(1, 1, 1)_OB-1.0_MD-1])/ct/volume-0-(0-0-1).npy'',
      ''LiverData_(S-1.0_MS-(1, 1, 2)_MM-1.0RL-True_CP-[CL-2_margins-(1, 1, 1)_OB-1.0_MD-1])/ct/volume-0-(0-0-1).npy''] \<and>
   map seg_path (fst (create_dataset example_ext example_config [example_file])) =
     [''LiverData_(S-1.0_MS-(1, 1, 2)_MM-1.0RL-True_CP-[CL-2_margins-(1, 1, 1)_OB-1.0_MD-1])/ct/segmentation-0-(0-0-1).npy'',
      ''LiverData_(S-1.0_MS-(1, 1, 2)_MM-1.0RL-True_CP-[CL-2_margins-(1, 1, 1)_OB-1.0_MD-1])/ct/segmentation-0-(0-0-1).npy''] \<and>
   map (\<lambda>s. flatten (ct_saved s)) (fst (create_dataset example_ext example_config [example_file])) =
     [[5, 512], [8, 9, - 512]] \<and>
   map_option flatten
     (disk_after (fst (create_dataset example_ext example_config [example_file]))
        ''LiverData_(S-1.0_MS-(1, 1, 2)_MM-1.0RL-True_CP-[CL-2_margins-(1, 1, 1)_OB-1.0_MD-1])/ct/volume-0-(0-0-1).npy'')
     = Some [8, 9, - 512] \<and>
   map (\<lambda>c. (crop_ranges c, location_string c))
     (case crop_to_boxes_of_interset_cc (ct_array example_file) (seg_array example_file) example_params of
        Inl e \<Rightarrow> [] | Inr crops \<Rightarrow> crops) =
     [(((0, 1), (0, 1), (0, 2)), ''0-0-1''), (((0, 1), (0, 1), (3, 6)), ''0-0-1'')]"
proof -
  let ?saves = "fst (create_dataset example_ext example_config [example_file])"
  let ?p = "''LiverData_(S-1.0_MS-(1, 1, 2)_MM-1.0RL-True_CP-[CL-2_margins-(1, 1, 1)_OB-1.0_MD-1])/ct/volume-0-(0-0-1).npy''"
  let ?q = "''LiverData_(S-1.0_MS-(1, 1, 2)_MM-1.0RL-True_CP-[CL-2_margins-(1, 1, 1)_OB-1.0_MD-1])/ct/segmentation-0-(0-0-1).npy''"
  have crops: "map (\<lambda>c. (crop_ranges c, location_string c))
     (case crop_to_boxes_of_interset_cc (ct_array example_file) (seg_array example_file) example_params of
        Inl e \<Rightarrow> [] | Inr crops \<Rightarrow> crops) =
     [(((0, 1), (0, 1), (0, 2)), ''0-0-1''), (((0, 1), (0, 1), (3, 6)), ''0-0-1'')]"
    by code_simp
  have paths: "map ct_path ?saves = [?p, ?p]" by code_simp
  have segs: "map seg_path ?saves = [?q, ?q]" by code_simp
  have cts: "map (\<lambda>s. flatten (ct_saved s)) ?saves = [[5, 512], [8, 9, - 512]]" by code_simp
  have disk: "map_option flatten (disk_after ?saves ?p) = Some [8, 9, - 512]" by code_simp
  from paths segs cts disk crops show ?thesis by blast
qed

end
